theory Spec2Isabelle
  imports Main "HOL-Library.Sublist"
begin

section \<open>Strings\<close>

text \<open>
  A Go string is a sequence of bytes, here a \<open>string\<close> (a list of 8-bit characters), with
  text in UTF-8. \<open>strings.TrimSpace\<close> removes the leading and trailing white space that
  \<open>unicode.IsSpace\<close> recognises. Go decodes one rune at a time, from the front and from the
  back; a rune is white space exactly when its bytes are one of the encodings below (an
  invalid or overlong encoding decodes to U+FFFD, which is not white space), so trimming is
  the repeated removal of one of these byte sequences from either end.
\<close>

definition asciiSpace :: "string list" where
  "asciiSpace = [[CHR 0x09], [CHR 0x0A], [CHR 0x0B], [CHR 0x0C], [CHR 0x0D], [CHR 0x20]]"

definition unicodeSpace :: "string list" where
  "unicodeSpace =
     [[CHR 0xC2, CHR 0x85], [CHR 0xC2, CHR 0xA0],
      [CHR 0xE1, CHR 0x9A, CHR 0x80],
      [CHR 0xE2, CHR 0x80, CHR 0x80], [CHR 0xE2, CHR 0x80, CHR 0x81],
      [CHR 0xE2, CHR 0x80, CHR 0x82], [CHR 0xE2, CHR 0x80, CHR 0x83],
      [CHR 0xE2, CHR 0x80, CHR 0x84], [CHR 0xE2, CHR 0x80, CHR 0x85],
      [CHR 0xE2, CHR 0x80, CHR 0x86], [CHR 0xE2, CHR 0x80, CHR 0x87],
      [CHR 0xE2, CHR 0x80, CHR 0x88], [CHR 0xE2, CHR 0x80, CHR 0x89],
      [CHR 0xE2, CHR 0x80, CHR 0x8A],
      [CHR 0xE2, CHR 0x80, CHR 0xA8], [CHR 0xE2, CHR 0x80, CHR 0xA9],
      [CHR 0xE2, CHR 0x80, CHR 0xAF],
      [CHR 0xE2, CHR 0x81, CHR 0x9F],
      [CHR 0xE3, CHR 0x80, CHR 0x80]]"

definition spaceRunes :: "string list" where
  "spaceRunes = asciiSpace @ unicodeSpace"

text \<open>The number of bytes of the white-space rune a string starts with (0 when it starts with none).\<close>

definition leadingSpace :: "string \<Rightarrow> nat" where
  "leadingSpace s = (case find (\<lambda>e. prefix e s) spaceRunes of None \<Rightarrow> 0 | Some e \<Rightarrow> length e)"

lemma find_SomeD: "find P xs = Some x \<Longrightarrow> x \<in> set xs \<and> P x"
  by (induction xs) (auto split: if_splits)

lemma spaceRunes_nonempty: "e \<in> set spaceRunes \<Longrightarrow> e \<noteq> []"
  by (auto simp: spaceRunes_def asciiSpace_def unicodeSpace_def)

lemma leadingSpace_le: "leadingSpace s \<le> length s"
  by (auto simp: leadingSpace_def prefix_def split: option.splits dest!: find_SomeD)

lemma leadingSpace_Nil [simp]: "leadingSpace [] = 0"
proof (cases "find (\<lambda>e. prefix e []) spaceRunes")
  case None
  then show ?thesis by (simp add: leadingSpace_def)
next
  case (Some e)
  then have "e \<in> set spaceRunes" and "prefix e []"
    by (auto dest: find_SomeD)
  then show ?thesis using spaceRunes_nonempty by auto
qed

function TrimLeft :: "string \<Rightarrow> string" where
  "TrimLeft s = (if leadingSpace s = 0 then s else TrimLeft (drop (leadingSpace s) s))"
  by pat_completeness auto
termination
proof (relation "measure length")
  show "wf (measure length)" by simp
next
  fix s :: string
  assume "leadingSpace s \<noteq> 0"
  then have "s \<noteq> []" by (cases s) auto
  with \<open>leadingSpace s \<noteq> 0\<close> show "(drop (leadingSpace s) s, s) \<in> measure length"
    by simp
qed

declare TrimLeft.simps [simp del]

text \<open>
  Trimming on the right meets the same encodings read backwards: the reversed string starts
  with the reversed encoding.
\<close>

definition trailingSpace :: "string \<Rightarrow> nat" where
  "trailingSpace s =
     (case find (\<lambda>e. prefix (rev e) (rev s)) spaceRunes of None \<Rightarrow> 0 | Some e \<Rightarrow> length e)"

lemma trailingSpace_Nil [simp]: "trailingSpace [] = 0"
proof (cases "find (\<lambda>e. prefix (rev e) (rev [])) spaceRunes")
  case None
  then show ?thesis by (simp add: trailingSpace_def)
next
  case (Some e)
  then have "e \<in> set spaceRunes" and "prefix (rev e) []"
    by (auto dest: find_SomeD)
  then show ?thesis using spaceRunes_nonempty by auto
qed

function TrimRight :: "string \<Rightarrow> string" where
  "TrimRight s =
     (if trailingSpace s = 0 then s else TrimRight (take (length s - trailingSpace s) s))"
  by pat_completeness auto
termination
proof (relation "measure length")
  show "wf (measure length)" by simp
next
  fix s :: string
  assume "trailingSpace s \<noteq> 0"
  then have "s \<noteq> []" by (cases s) auto
  with \<open>trailingSpace s \<noteq> 0\<close>
  show "(take (length s - trailingSpace s) s, s) \<in> measure length"
    by simp
qed

declare TrimRight.simps [simp del]

definition TrimSpace :: "string \<Rightarrow> string" where
  "TrimSpace s = TrimRight (TrimLeft s)"

text \<open>\<open>strings.Contains s substr\<close>: \<open>substr\<close> occurs in \<open>s\<close> as a run of consecutive bytes.\<close>

fun Contains :: "string \<Rightarrow> string \<Rightarrow> bool" where
  "Contains [] substr = (substr = [])"
| "Contains (c # s) substr = (prefix substr (c # s) \<or> Contains s substr)"

text \<open>\<open>strings.Join elems sep\<close>.\<close>

fun Join :: "string list \<Rightarrow> string \<Rightarrow> string" where
  "Join [] sep = []"
| "Join [e] sep = e"
| "Join (e # es) sep = e @ sep @ Join es sep"

section \<open>Data model\<close>

text \<open>The \<open>Profile\<close> struct of \<open>types.go\<close>. A nil slice and an empty slice are both \<open>[]\<close>.\<close>

record Profile =
  ID :: string
  Name :: string
  Title :: string
  Company :: string
  Location :: string
  LinkedInURL :: string
  PossibleLinkedInURLs :: "string list"

text \<open>The zero value \<open>Profile{}\<close>.\<close>

definition zeroProfile :: Profile where
  "zeroProfile = \<lparr>ID = [], Name = [], Title = [], Company = [], Location = [],
     LinkedInURL = [], PossibleLinkedInURLs = []\<rparr>"

text \<open>
  Go's \<open>error\<close> values, one constructor for each place the code makes one: \<open>errors.New\<close>
  with its message, the error an HTTP round trip or the JSON decoder hands back (its text),
  and each \<open>fmt.Errorf\<close> with the values it formats (\<open>%w\<close> wraps an error).
\<close>

datatype error =
    New string
  | Transport string
  | Syntax string
  | UnexpectedStatus int string
  | DecodingAttendees error
  | DecodingDetail error
  | ListingPage int error
  | GettingAttendee string error
  | SearchStatus int string
  | SearchError string string error

text \<open>The decoded bodies of the three endpoints.\<close>

record attendeeItem =
  item_ID :: string

record brellaAttendeesListResponse =
  Data :: "attendeeItem list"

record userAttributes =
  FirstName :: string
  LastName :: string
  CompanyTitle :: string
  CompanyName :: string
  LinkedIn :: string
  Twitter :: string
  Website :: string
  TimeZone :: string
  CompanyCountries :: "string list"

record includedItem =
  inc_ID :: string
  inc_Type :: string
  Attributes :: userAttributes

text \<open>
  \<open>data_ID\<close> and \<open>data_Type\<close> are \<open>Data.ID\<close> and \<open>Data.Type\<close>; \<open>user_ID\<close> and \<open>user_Type\<close> are
  \<open>Data.Relationships.User.Data.ID\<close> and \<open>.Type\<close>.
\<close>

record brellaAttendeeDetailResponse =
  data_ID :: string
  data_Type :: string
  user_ID :: string
  user_Type :: string
  Included :: "includedItem list"

record searchItem =
  Link :: string

record googleSearchResponse =
  Items :: "searchItem list"

section \<open>HTTP\<close>

text \<open>
  What one \<open>HTTPClient.Do\<close> followed by reading the body gives: no response (the request could
  not be built or sent; the error is returned as it is), or a response with its status
  code, its body and what \<open>json.Decoder.Decode\<close> makes of the body.
\<close>

datatype 'a reply = Failed error | Response int string "error + 'a"

text \<open>
  One request with its reply. The list of all exchanges so far, oldest first, is the state
  the functions below pass along: each request appends one exchange.
\<close>

datatype exchange =
    ListExchange string int int "brellaAttendeesListResponse reply"
  | DetailExchange string string "brellaAttendeeDetailResponse reply"
  | SearchExchange string string string string "googleSearchResponse reply"

text \<open>
  The servers behind \<open>*http.Client\<close>: the reply to a request may depend on everything
  exchanged before. \<open>getAttendees\<close> takes the event, the page number and the page size;
  \<open>getAttendee\<close> the event and the attendee; \<open>getSearch\<close> the parameters \<open>key\<close>, \<open>cx\<close>, \<open>q\<close>
  and \<open>num\<close> of the search URL.
\<close>

record httpClient =
  getAttendees :: "exchange list \<Rightarrow> string \<Rightarrow> int \<Rightarrow> int \<Rightarrow> brellaAttendeesListResponse reply"
  getAttendee :: "exchange list \<Rightarrow> string \<Rightarrow> string \<Rightarrow> brellaAttendeeDetailResponse reply"
  getSearch :: "exchange list \<Rightarrow> string \<Rightarrow> string \<Rightarrow> string \<Rightarrow> string \<Rightarrow> googleSearchResponse reply"

section \<open>Enrichment Matcher\<close>

text \<open>
  \<open>searchDelay\<close> is a \<open>time.Duration\<close>, a number of nanoseconds; it only sets the length of
  the pause after each profile. The pauses (\<open>time.Sleep\<close>) and the log lines are not
  modelled.
\<close>

record Matcher =
  httpClient :: httpClient
  searchAPIKey :: string
  searchEngineID :: string
  searchDelay :: int
  enabled :: bool

text \<open>
  \<open>NewMatcher\<close> reads three fields of the configuration: \<open>SearchAPIKey\<close>, \<open>SearchEngineID\<close>
  and \<open>SearchDelay\<close>.
\<close>

definition NewMatcher :: "httpClient \<Rightarrow> string \<Rightarrow> string \<Rightarrow> int \<Rightarrow> Matcher" where
  "NewMatcher hc SearchAPIKey SearchEngineID SearchDelay =
     \<lparr>httpClient = hc, searchAPIKey = SearchAPIKey, searchEngineID = SearchEngineID,
      searchDelay = SearchDelay,
      enabled = (SearchAPIKey \<noteq> [] \<and> SearchEngineID \<noteq> [])\<rparr>"

text \<open>The loop of \<open>searchOnce\<close> over \<open>sr.Items\<close>, with its two accumulators.\<close>

fun collectLinks :: "searchItem list \<Rightarrow> string list \<Rightarrow> string list \<Rightarrow> string list \<times> string list" where
  "collectLinks [] personal other = (personal, other)"
| "collectLinks (item # items) personal other =
     (let link = TrimSpace (Link item) in
      if link = [] then collectLinks items personal other
      else if Contains link ''linkedin.com/in/'' then collectLinks items (personal @ [link]) other
      else if Contains link ''linkedin.com/'' then collectLinks items personal (other @ [link])
      else collectLinks items personal other)"

text \<open>What \<open>searchOnce\<close> returns for a reply: the candidate URLs and the error.\<close>

definition searchResult :: "googleSearchResponse reply \<Rightarrow> string list \<times> error option" where
  "searchResult r =
     (case r of
        Failed err \<Rightarrow> ([], Some err)
      | Response StatusCode body decoded \<Rightarrow>
          if StatusCode \<noteq> 200 then ([], Some (SearchStatus StatusCode (TrimSpace (take 1024 body))))
          else (case decoded of
                  Inl err \<Rightarrow> ([], Some err)
                | Inr sr \<Rightarrow>
                    (case collectLinks (Items sr) [] [] of
                       (personal, other) \<Rightarrow> (personal @ other, None))))"

definition searchOnce :: "Matcher \<Rightarrow> string \<Rightarrow> exchange list \<Rightarrow> (string list \<times> error option) \<times> exchange list" where
  "searchOnce m query h =
     (let r = getSearch (httpClient m) h (searchAPIKey m) (searchEngineID m) query ''10''
      in (searchResult r, h @ [SearchExchange (searchAPIKey m) (searchEngineID m) query ''10'' r]))"

text \<open>The loop of \<open>findLinkedInCandidates\<close> over the query variants.\<close>

fun tryQueries :: "Matcher \<Rightarrow> string list \<Rightarrow> exchange list \<Rightarrow> (string list \<times> error option) \<times> exchange list" where
  "tryQueries m [] h = (([], None), h)"
| "tryQueries m (query # queries) h =
     (case searchOnce m query h of
        ((urls, Some err), h') \<Rightarrow> (([], Some err), h')
      | ((urls, None), h') \<Rightarrow>
          if urls \<noteq> [] then ((urls, None), h') else tryQueries m queries h')"

text \<open>
  \<open>quote\<close> is \<open>strconv.Quote\<close>, which the verb \<open>%q\<close> applies: a parameter, since what it
  escapes is decided by Go's tables of printable runes.
\<close>

definition findLinkedInCandidates ::
  "(string \<Rightarrow> string) \<Rightarrow> Matcher \<Rightarrow> Profile \<Rightarrow> exchange list \<Rightarrow> (string list \<times> error option) \<times> exchange list" where
  "findLinkedInCandidates quote m p h =
     (let name = TrimSpace (Name p);
          company = TrimSpace (Company p);
          queries = (if name \<noteq> [] \<and> company \<noteq> []
                     then [quote name @ '' '' @ quote company @ '' site:linkedin.com''] else []);
          queries = (if name \<noteq> []
                     then queries @ [quote name @ '' site:linkedin.com'', name @ '' site:linkedin.com'']
                     else queries)
      in if queries = [] then (([], None), h) else tryQueries m queries h)"

text \<open>
  The loop of \<open>EnrichProfiles\<close> from index \<open>i\<close> on; \<open>p\<close> is the copy of \<open>out[i]\<close> that \<open>range\<close>
  makes, and \<open>urls[0]\<close>, \<open>urls[1:]\<close> are read only where \<open>urls\<close> is not empty.
\<close>

function enrichFrom ::
  "(string \<Rightarrow> string) \<Rightarrow> Matcher \<Rightarrow> nat \<Rightarrow> Profile list \<Rightarrow> exchange list \<Rightarrow> (Profile list \<times> error option) \<times> exchange list" where
  "enrichFrom quote m i out h =
     (if length out \<le> i then ((out, None), h)
      else
        let p = out ! i in
        if LinkedInURL p \<noteq> [] \<or> TrimSpace (Name p) = [] then enrichFrom quote m (i + 1) out h
        else
          (case findLinkedInCandidates quote m p h of
             ((urls, Some err), h') \<Rightarrow> ((out, Some (SearchError (Name p) (ID p) err)), h')
           | ((urls, None), h') \<Rightarrow>
               if length urls > 0 then
                 if length urls > 1 then
                   enrichFrom quote m (i + 1)
                     (out[i := (out ! i)\<lparr>LinkedInURL := hd urls, PossibleLinkedInURLs := tl urls\<rparr>]) h'
                 else
                   enrichFrom quote m (i + 1) (out[i := (out ! i)\<lparr>LinkedInURL := hd urls\<rparr>]) h'
               else enrichFrom quote m (i + 1) out h'))"
  by pat_completeness auto
termination
  by (relation "measure (\<lambda>(quote, m, i, out, h). length out - i)") auto

declare enrichFrom.simps [simp del]

definition EnrichProfiles ::
  "(string \<Rightarrow> string) \<Rightarrow> Matcher \<Rightarrow> Profile list \<Rightarrow> exchange list \<Rightarrow> (Profile list \<times> error option) \<times> exchange list" where
  "EnrichProfiles quote m profiles h =
     (if \<not> enabled m then ((profiles, None), h) else enrichFrom quote m 0 profiles h)"

section \<open>API Client\<close>

text \<open>
  The headers that \<open>newRequest\<close> attaches are built from the remaining fields and do not
  decide what the functions return; the exchanges record the request by its parameters.
\<close>

record Client =
  BaseURL :: string
  HTTPClient :: httpClient
  AuthToken :: string
  AccessToken :: string
  ClientID :: string
  UID :: string
  SessionCookie :: string
  BrellaMediaType :: string

record ListProfilesResult =
  Profiles :: "Profile list"
  HasNext :: bool

text \<open>The loop of \<open>ListProfiles\<close> over \<open>apiResp.Data\<close>.\<close>

fun stubProfiles :: "attendeeItem list \<Rightarrow> Profile list \<Rightarrow> Profile list" where
  "stubProfiles [] profiles = profiles"
| "stubProfiles (item # items) profiles =
     (if item_ID item = [] then stubProfiles items profiles
      else stubProfiles items (profiles @ [zeroProfile\<lparr>ID := item_ID item\<rparr>]))"

definition ListProfiles ::
  "Client \<Rightarrow> string \<Rightarrow> int \<Rightarrow> int \<Rightarrow> exchange list \<Rightarrow> (ListProfilesResult \<times> error option) \<times> exchange list" where
  "ListProfiles c eventID page pageSize h =
     (if eventID = [] then ((\<lparr>Profiles = [], HasNext = False\<rparr>, Some (New ''eventID is empty'')), h)
      else if BaseURL c = [] then
        ((\<lparr>Profiles = [], HasNext = False\<rparr>, Some (New ''client BaseURL is empty'')), h)
      else
        let r = getAttendees (HTTPClient c) h eventID page pageSize;
            h' = h @ [ListExchange eventID page pageSize r]
        in (case r of
              Failed err \<Rightarrow> ((\<lparr>Profiles = [], HasNext = False\<rparr>, Some err), h')
            | Response StatusCode body decoded \<Rightarrow>
                if StatusCode \<noteq> 200 then
                  ((\<lparr>Profiles = [], HasNext = False\<rparr>,
                    Some (UnexpectedStatus StatusCode (TrimSpace (take 1024 body)))), h')
                else (case decoded of
                        Inl err \<Rightarrow>
                          ((\<lparr>Profiles = [], HasNext = False\<rparr>, Some (DecodingAttendees err)), h')
                      | Inr apiResp \<Rightarrow>
                          ((\<lparr>Profiles = stubProfiles (Data apiResp) [],
                             HasNext = (int (length (Data apiResp)) = pageSize)\<rparr>, None), h'))))"

text \<open>The loop of \<open>mapBrellaDetailToProfile\<close> over \<open>resp.Included\<close>, left at the first match.\<close>

fun fillFromIncluded :: "includedItem list \<Rightarrow> string \<Rightarrow> Profile \<Rightarrow> Profile" where
  "fillFromIncluded [] userID profile = profile"
| "fillFromIncluded (inc # incs) userID profile =
     (if inc_Type inc \<noteq> ''user'' \<or> inc_ID inc \<noteq> userID then fillFromIncluded incs userID profile
      else
        let first = TrimSpace (FirstName (Attributes inc));
            last = TrimSpace (LastName (Attributes inc));
            name = TrimSpace (Join [first, last] '' '');
            location =
              (if length (CompanyCountries (Attributes inc)) > 0
               then Join (CompanyCountries (Attributes inc)) '', ''
               else if TimeZone (Attributes inc) \<noteq> [] then TimeZone (Attributes inc)
               else [])
        in profile\<lparr>Name := name,
                    Title := CompanyTitle (Attributes inc),
                    Company := CompanyName (Attributes inc),
                    Location := location,
                    LinkedInURL := LinkedIn (Attributes inc)\<rparr>)"

definition mapBrellaDetailToProfile :: "brellaAttendeeDetailResponse \<Rightarrow> Profile" where
  "mapBrellaDetailToProfile resp =
     (let profile = zeroProfile\<lparr>ID := data_ID resp\<rparr>;
          userID = user_ID resp
      in if userID = [] then profile else fillFromIncluded (Included resp) userID profile)"

definition GetAttendeeProfile ::
  "Client \<Rightarrow> string \<Rightarrow> string \<Rightarrow> exchange list \<Rightarrow> (Profile \<times> error option) \<times> exchange list" where
  "GetAttendeeProfile c eventID attendeeID h =
     (if eventID = [] then ((zeroProfile, Some (New ''eventID is empty'')), h)
      else if attendeeID = [] then ((zeroProfile, Some (New ''attendeeID is empty'')), h)
      else if BaseURL c = [] then ((zeroProfile, Some (New ''client BaseURL is empty'')), h)
      else
        let r = getAttendee (HTTPClient c) h eventID attendeeID;
            h' = h @ [DetailExchange eventID attendeeID r]
        in (case r of
              Failed err \<Rightarrow> ((zeroProfile, Some err), h')
            | Response StatusCode body decoded \<Rightarrow>
                if StatusCode \<noteq> 200 then
                  ((zeroProfile, Some (UnexpectedStatus StatusCode (TrimSpace (take 1024 body)))), h')
                else (case decoded of
                        Inl err \<Rightarrow> ((zeroProfile, Some (DecodingDetail err)), h')
                      | Inr apiResp \<Rightarrow> ((mapBrellaDetailToProfile apiResp, None), h'))))"

section \<open>Profile Walker\<close>

text \<open>
  \<open>Client\<close> is a pointer that may be nil. \<open>DelayBetweenRequests\<close> only sets the length of
  the pauses, which are not modelled. The page counter is an \<open>int\<close>: it grows by one for each
  page fetched and cannot reach the end of Go's 64-bit range.
\<close>

record Scraper =
  Client :: "Client option"
  PageSize :: int
  EventID :: string
  DelayBetweenRequests :: int

text \<open>The inner loop of \<open>ScrapeAllProfiles\<close>, over the stubs of one page.\<close>

fun fetchDetails ::
  "Client \<Rightarrow> string \<Rightarrow> Profile list \<Rightarrow> Profile list \<Rightarrow> exchange list \<Rightarrow> (Profile list \<times> error option) \<times> exchange list" where
  "fetchDetails c eventID [] all h = ((all, None), h)"
| "fetchDetails c eventID (stub # stubs) all h =
     (if ID stub = [] then fetchDetails c eventID stubs all h
      else
        (case GetAttendeeProfile c eventID (ID stub) h of
           ((profile, Some err), h') \<Rightarrow> (([], Some (GettingAttendee (ID stub) err)), h')
         | ((profile, None), h') \<Rightarrow> fetchDetails c eventID stubs (all @ [profile]) h'))"

text \<open>
  The outer loop. It ends only when a page is empty, is not full, or lies beyond
  \<open>maxPages\<close>, or when a request fails: with \<open>maxPages \<le> 0\<close> and a server whose every page
  is full it runs forever, which is the value \<open>None\<close>.
\<close>

partial_function (option) walkPages ::
  "Client \<Rightarrow> string \<Rightarrow> int \<Rightarrow> int \<Rightarrow> int \<Rightarrow> Profile list \<Rightarrow> exchange list \<Rightarrow>
     ((Profile list \<times> error option) \<times> exchange list) option" where
  "walkPages c eventID pageSize maxPages page all h =
     (if maxPages > 0 \<and> page > maxPages then Some ((all, None), h)
      else
        (case ListProfiles c eventID page pageSize h of
           ((res, Some err), h1) \<Rightarrow> Some (([], Some (ListingPage page err)), h1)
         | ((res, None), h1) \<Rightarrow>
             if length (Profiles res) = 0 then Some ((all, None), h1)
             else
               (case fetchDetails c eventID (Profiles res) all h1 of
                  ((all', Some err), h2) \<Rightarrow> Some (([], Some err), h2)
                | ((all', None), h2) \<Rightarrow>
                    if \<not> HasNext res then Some ((all', None), h2)
                    else walkPages c eventID pageSize maxPages (page + 1) all' h2)))"

definition ScrapeAllProfiles ::
  "Scraper \<Rightarrow> int \<Rightarrow> exchange list \<Rightarrow> ((Profile list \<times> error option) \<times> exchange list) option" where
  "ScrapeAllProfiles s maxPages h =
     (case Client s of
        None \<Rightarrow> Some (([], Some (New ''scraper client is nil'')), h)
      | Some c \<Rightarrow>
          if EventID s = [] then Some (([], Some (New ''event ID is empty'')), h)
          else
            let pageSize = (if PageSize s \<le> 0 then 50 else PageSize s)
            in walkPages c (EventID s) pageSize maxPages 1 [] h)"

section \<open>The enrichment pass, profile by profile\<close>

text \<open>
  The loop of \<open>EnrichProfiles\<close> visits the indices in order and writes only to the index it
  is at, so it is also a recursion over the list of profiles: \<open>skipped\<close> is the test that
  makes the loop continue, \<open>withCandidates\<close> the assignments it makes for a list of candidates.
  \<open>enrichFrom_enrichEach\<close> below proves the two forms equal.
\<close>

definition skipped :: "Profile \<Rightarrow> bool" where
  "skipped p = (LinkedInURL p \<noteq> [] \<or> TrimSpace (Name p) = [])"

definition withCandidates :: "Profile \<Rightarrow> string list \<Rightarrow> Profile" where
  "withCandidates p urls =
     (if urls = [] then p
      else if length urls > 1 then p\<lparr>LinkedInURL := hd urls, PossibleLinkedInURLs := tl urls\<rparr>
      else p\<lparr>LinkedInURL := hd urls\<rparr>)"

fun enrichEach ::
  "(string \<Rightarrow> string) \<Rightarrow> Matcher \<Rightarrow> Profile list \<Rightarrow> exchange list \<Rightarrow> (Profile list \<times> error option) \<times> exchange list" where
  "enrichEach quote m [] h = (([], None), h)"
| "enrichEach quote m (p # ps) h =
     (if skipped p then
        (case enrichEach quote m ps h of ((out, e), h') \<Rightarrow> ((p # out, e), h'))
      else
        (case findLinkedInCandidates quote m p h of
           ((urls, Some err), h') \<Rightarrow> ((p # ps, Some (SearchError (Name p) (ID p) err)), h')
         | ((urls, None), h') \<Rightarrow>
             (case enrichEach quote m ps h' of
                ((out, e), h'') \<Rightarrow> ((withCandidates p urls # out, e), h''))))"

section \<open>Reading the history\<close>

text \<open>What a search exchange gave \<open>searchOnce\<close>: its candidates and its error.\<close>

definition outcome :: "exchange \<Rightarrow> string list \<times> error option" where
  "outcome ex = (case ex of SearchExchange k c q n r \<Rightarrow> searchResult r | _ \<Rightarrow> ([], None))"

text \<open>
  The exchanges that searching for each of the queries in turn, after the history \<open>h\<close>,
  adds to the history.
\<close>

fun exchanges :: "Matcher \<Rightarrow> string list \<Rightarrow> exchange list \<Rightarrow> exchange list" where
  "exchanges m [] h = []"
| "exchanges m (query # queries) h =
     (let ex = SearchExchange (searchAPIKey m) (searchEngineID m) query ''10''
                 (getSearch (httpClient m) h (searchAPIKey m) (searchEngineID m) query ''10'')
      in ex # exchanges m queries (h @ [ex]))"

text \<open>The fields of a Profile that enrichment has no assignment to.\<close>

definition frame :: "Profile \<Rightarrow> string \<times> string \<times> string \<times> string \<times> string" where
  "frame p = (ID p, Name p, Title p, Company p, Location p)"

text \<open>
  The query variants in the words of the specification, for a profile whose name is not
  blank: the quoted name with the quoted company when the company is not blank, then the
  quoted name, then the name as it is, each with the site restriction.
\<close>

definition variants :: "(string \<Rightarrow> string) \<Rightarrow> Profile \<Rightarrow> string list" where
  "variants quote p =
     (if TrimSpace (Company p) \<noteq> []
      then [quote (TrimSpace (Name p)) @ '' '' @ quote (TrimSpace (Company p)) @ '' site:linkedin.com'']
      else []) @
     [quote (TrimSpace (Name p)) @ '' site:linkedin.com'',
      TrimSpace (Name p) @ '' site:linkedin.com'']"


text \<open>
  The identifiers a listing exchange returned (empty ones among them), the page it asked
  for, the attendee a detail exchange asked for, and the attendee with the Profile that
  \<open>GetAttendeeProfile\<close> makes of a detail exchange that succeeded.
\<close>

definition listed :: "exchange \<Rightarrow> string list" where
  "listed ex =
     (case ex of
        ListExchange eventID page pageSize (Response StatusCode body (Inr apiResp)) \<Rightarrow>
          if StatusCode = 200 then map item_ID (Data apiResp) else []
      | _ \<Rightarrow> [])"

definition pageOf :: "exchange \<Rightarrow> int list" where
  "pageOf ex = (case ex of ListExchange eventID page pageSize r \<Rightarrow> [page] | _ \<Rightarrow> [])"

definition requested :: "exchange \<Rightarrow> string list" where
  "requested ex = (case ex of DetailExchange eventID attendeeID r \<Rightarrow> [attendeeID] | _ \<Rightarrow> [])"

definition fetched :: "exchange \<Rightarrow> (string \<times> Profile) list" where
  "fetched ex =
     (case ex of
        DetailExchange eventID attendeeID (Response StatusCode body (Inr apiResp)) \<Rightarrow>
          if StatusCode = 200 then [(attendeeID, mapBrellaDetailToProfile apiResp)] else []
      | _ \<Rightarrow> [])"

text \<open>
  The error that \<open>ScrapeAllProfiles\<close> returns for an exchange that failed: the error of
  \<open>ListProfiles\<close> or \<open>GetAttendeeProfile\<close> (no response, a status other than 200, a body that
  does not decode), wrapped with the page or the attendee.
\<close>

definition surfaced :: "exchange \<Rightarrow> error option" where
  "surfaced ex =
     (case ex of
        ListExchange eventID page pageSize r \<Rightarrow>
          (case r of
             Failed err \<Rightarrow> Some (ListingPage page err)
           | Response StatusCode body decoded \<Rightarrow>
               if StatusCode \<noteq> 200
               then Some (ListingPage page (UnexpectedStatus StatusCode (TrimSpace (take 1024 body))))
               else (case decoded of
                       Inl err \<Rightarrow> Some (ListingPage page (DecodingAttendees err))
                     | Inr apiResp \<Rightarrow> None))
      | DetailExchange eventID attendeeID r \<Rightarrow>
          (case r of
             Failed err \<Rightarrow> Some (GettingAttendee attendeeID err)
           | Response StatusCode body decoded \<Rightarrow>
               if StatusCode \<noteq> 200
               then Some (GettingAttendee attendeeID
                            (UnexpectedStatus StatusCode (TrimSpace (take 1024 body))))
               else (case decoded of
                       Inl err \<Rightarrow> Some (GettingAttendee attendeeID (DecodingDetail err))
                     | Inr apiResp \<Rightarrow> None))
      | SearchExchange key cx q num r \<Rightarrow> None)"

text \<open>
  What the outer loop, entered at \<open>page\<close> with \<open>all\<close> collected, has done when it returns the
  profiles \<open>ps\<close> and the error \<open>e\<close> after the exchanges \<open>new\<close>.
\<close>

definition walkedFrom :: "int \<Rightarrow> Profile list \<Rightarrow> Profile list \<Rightarrow> error option \<Rightarrow> exchange list \<Rightarrow> bool" where
  "walkedFrom page all ps e new =
     ([] \<notin> set (concat (map requested new)) \<and>
      (\<forall>ex \<in> set (butlast new). surfaced ex = None) \<and>
      (e = None \<longrightarrow>
         (\<forall>ex \<in> set new. surfaced ex = None) \<and>
         ps = all @ map snd (concat (map fetched new)) \<and>
         concat (map requested new) = map fst (concat (map fetched new)) \<and>
         concat (map requested new) = filter (\<lambda>id. id \<noteq> []) (concat (map listed new)) \<and>
         (\<exists>q. page - 1 \<le> q \<and> concat (map pageOf new) = [page..q])) \<and>
      (\<forall>err. e = Some err \<longrightarrow> ps = [] \<and> new \<noteq> [] \<and> surfaced (last new) = Some err))"

section \<open>The words of the specification\<close>

text \<open>
  A personal link contains \<open>linkedin.com/in/\<close>; an other link contains \<open>linkedin.com/\<close> but
  not the personal pattern.
\<close>

definition isPersonal :: "string \<Rightarrow> bool" where
  "isPersonal link = Contains link ''linkedin.com/in/''"

definition isOther :: "string \<Rightarrow> bool" where
  "isOther link = (Contains link ''linkedin.com/'' \<and> \<not> Contains link ''linkedin.com/in/'')"

text \<open>
  The walk in the words of the specification. For every identifier of a page that is not
  empty, in listing order, one detail request; \<open>detailExchanges\<close> is the exchanges this
  adds after the history \<open>h\<close>.
\<close>

fun detailExchanges :: "httpClient \<Rightarrow> string \<Rightarrow> string list \<Rightarrow> exchange list \<Rightarrow> exchange list" where
  "detailExchanges hc eventID [] h = []"
| "detailExchanges hc eventID (attendeeID # ids) h =
     (if attendeeID = [] then detailExchanges hc eventID ids h
      else
        let ex = DetailExchange eventID attendeeID (getAttendee hc h eventID attendeeID)
        in ex # detailExchanges hc eventID ids (h @ [ex]))"

text \<open>
  One page: the listing request for the page, then the detail requests for the
  identifiers it returned.
\<close>

definition listExchange :: "httpClient \<Rightarrow> string \<Rightarrow> int \<Rightarrow> int \<Rightarrow> exchange list \<Rightarrow> exchange" where
  "listExchange hc eventID pageSize page h =
     ListExchange eventID page pageSize (getAttendees hc h eventID page pageSize)"

definition pageExchanges :: "httpClient \<Rightarrow> string \<Rightarrow> int \<Rightarrow> int \<Rightarrow> exchange list \<Rightarrow> exchange list" where
  "pageExchanges hc eventID pageSize page h =
     (let l = listExchange hc eventID pageSize page h
      in l # detailExchanges hc eventID (listed l) (h @ [l]))"

text \<open>
  \<open>n\<close> pages in page order, starting at \<open>page\<close>.
\<close>

fun walkExchanges :: "httpClient \<Rightarrow> string \<Rightarrow> int \<Rightarrow> nat \<Rightarrow> int \<Rightarrow> exchange list \<Rightarrow> exchange list" where
  "walkExchanges hc eventID pageSize 0 page h = []"
| "walkExchanges hc eventID pageSize (Suc n) page h =
     (let new = pageExchanges hc eventID pageSize page h
      in new @ walkExchanges hc eventID pageSize n (page + 1) (h @ new))"

text \<open>
  The walk goes on after a page that returned at least one stub and whose continuation
  flag is set, that is, a page with as many items as the page size. It stops at a page
  beyond the ceiling (when the ceiling is positive), after a page with no stub, and after
  a page whose continuation flag is not set. \<open>walkEnds\<close> holds when a walk from \<open>page\<close> stops
  after exactly \<open>n\<close> pages, every request of which succeeded.
\<close>

definition continues :: "int \<Rightarrow> exchange \<Rightarrow> bool" where
  "continues pageSize l =
     (filter (\<lambda>id. id \<noteq> []) (listed l) \<noteq> [] \<and> int (length (listed l)) = pageSize)"

fun walkEnds :: "httpClient \<Rightarrow> string \<Rightarrow> int \<Rightarrow> int \<Rightarrow> nat \<Rightarrow> int \<Rightarrow> exchange list \<Rightarrow> bool" where
  "walkEnds hc eventID pageSize maxPages 0 page h = (0 < maxPages \<and> maxPages < page)"
| "walkEnds hc eventID pageSize maxPages (Suc n) page h =
     (\<not> (0 < maxPages \<and> maxPages < page) \<and>
      (\<forall>ex \<in> set (pageExchanges hc eventID pageSize page h). surfaced ex = None) \<and>
      (if continues pageSize (listExchange hc eventID pageSize page h)
       then walkEnds hc eventID pageSize maxPages n (page + 1)
              (h @ pageExchanges hc eventID pageSize page h)
       else n = 0))"

section \<open>Servers and values for the examples\<close>

text \<open>A server that gives the same reply to every search and refuses everything else.\<close>

definition answering :: "googleSearchResponse reply \<Rightarrow> httpClient" where
  "answering r =
     \<lparr>getAttendees = (\<lambda>h e p s. Failed (Transport ''connection refused'')),
      getAttendee = (\<lambda>h e a. Failed (Transport ''connection refused'')),
      getSearch = (\<lambda>h k c q n. r)\<rparr>"

text \<open>A server that gives the same reply to every listing request and refuses everything else.\<close>

definition listing :: "brellaAttendeesListResponse reply \<Rightarrow> httpClient" where
  "listing r =
     \<lparr>getAttendees = (\<lambda>h e p s. r),
      getAttendee = (\<lambda>h e a. Failed (Transport ''connection refused'')),
      getSearch = (\<lambda>h k c q n. Failed (Transport ''connection refused''))\<rparr>"

definition clientOf :: "httpClient \<Rightarrow> Client" where
  "clientOf hc =
     \<lparr>BaseURL = ''https://api.brella.io'', HTTPClient = hc, AuthToken = [], AccessToken = [],
      ClientID = [], UID = [], SessionCookie = [], BrellaMediaType = ''brella.latest''\<rparr>"

definition someAttributes :: userAttributes where
  "someAttributes =
     \<lparr>FirstName = ''Ada'', LastName = ''Lovelace'', CompanyTitle = ''Engineer'',
      CompanyName = ''Analytical'', LinkedIn = [], Twitter = [], Website = [],
      TimeZone = ''Europe/London'', CompanyCountries = []\<rparr>"

text \<open>\<open>strconv.Quote\<close> on printable ASCII text without a quote or a backslash.\<close>

definition quoted :: "string \<Rightarrow> string" where
  "quoted s = CHR 0x22 # s @ [CHR 0x22]"

text \<open>A server that answers each search by its query and refuses everything else.\<close>

definition searching :: "(string \<Rightarrow> googleSearchResponse reply) \<Rightarrow> httpClient" where
  "searching f =
     \<lparr>getAttendees = (\<lambda>h e p s. Failed (Transport ''connection refused'')),
      getAttendee = (\<lambda>h e a. Failed (Transport ''connection refused'')),
      getSearch = (\<lambda>h k c q n. f q)\<rparr>"

definition found :: "string list \<Rightarrow> googleSearchResponse reply" where
  "found links = Response 200 [] (Inr \<lparr>Items = map (\<lambda>l. \<lparr>Link = l\<rparr>) links\<rparr>)"

definition ada :: Profile where
  "ada = \<lparr>ID = ''1'', Name = ''Ada Lovelace'', Title = ''Engineer'', Company = ''Analytical'',
     Location = ''GB'', LinkedInURL = [], PossibleLinkedInURLs = []\<rparr>"

definition bob :: Profile where
  "bob = \<lparr>ID = ''2'', Name = ''Bob'', Title = [], Company = [],
     Location = [], LinkedInURL = [], PossibleLinkedInURLs = []\<rparr>"

definition carol :: Profile where
  "carol = \<lparr>ID = ''3'', Name = ''Carol'', Title = [], Company = ''Acme'',
     Location = [], LinkedInURL = ''https://linkedin.com/in/carol'', PossibleLinkedInURLs = []\<rparr>"

definition adaOnly :: "string \<Rightarrow> googleSearchResponse reply" where
  "adaOnly q =
     (if q = quoted ''Ada Lovelace'' @ '' site:linkedin.com''
      then found [''https://linkedin.com/in/ada'', ''https://linkedin.com/company/analytical'']
      else if q = quoted ''Ada Lovelace'' @ '' '' @ quoted ''Analytical'' @ '' site:linkedin.com''
      then found [''https://example.com/ada'']
      else Response 503 ''quota exceeded'' (Inl (Syntax [])))"

definition matcher :: Matcher where
  "matcher = NewMatcher (searching adaOnly) ''key'' ''cx'' 1000000000"

definition ada' :: Profile where
  "ada' = ada\<lparr>LinkedInURL := ''https://linkedin.com/in/ada'',
     PossibleLinkedInURLs := [''https://linkedin.com/company/analytical'']\<rparr>"


definition adaFirst :: exchange where
  "adaFirst = SearchExchange ''key'' ''cx''
     (quoted ''Ada Lovelace'' @ '' '' @ quoted ''Analytical'' @ '' site:linkedin.com'') ''10''
     (found [''https://example.com/ada''])"

definition adaSecond :: exchange where
  "adaSecond = SearchExchange ''key'' ''cx'' (quoted ''Ada Lovelace'' @ '' site:linkedin.com'') ''10''
     (found [''https://linkedin.com/in/ada'', ''https://linkedin.com/company/analytical''])"

definition bobFirst :: exchange where
  "bobFirst = SearchExchange ''key'' ''cx'' (quoted ''Bob'' @ '' site:linkedin.com'') ''10''
     (Response 503 ''quota exceeded'' (Inl (Syntax [])))"

text \<open>
  A conference of three attendees listed on two pages of size 2, and the same conference
  with a server that fails on the detail of attendee \<open>b\<close>.
\<close>

definition attendee :: "string \<Rightarrow> brellaAttendeeDetailResponse" where
  "attendee attendeeID =
     \<lparr>data_ID = attendeeID, data_Type = ''attendee'', user_ID = [], user_Type = [], Included = []\<rparr>"

definition pageReply :: "string list \<Rightarrow> brellaAttendeesListResponse reply" where
  "pageReply ids = Response 200 [] (Inr \<lparr>Data = map (\<lambda>i. \<lparr>item_ID = i\<rparr>) ids\<rparr>)"

definition conference :: httpClient where
  "conference =
     \<lparr>getAttendees = (\<lambda>h e p s. if p = 1 then pageReply [''a'', ''b'']
                                  else if p = 2 then pageReply [''c''] else pageReply []),
      getAttendee = (\<lambda>h e a. Response 200 [] (Inr (attendee a))),
      getSearch = (\<lambda>h k c q n. Failed (Transport ''connection refused''))\<rparr>"


definition scraperOf :: "httpClient \<Rightarrow> Scraper" where
  "scraperOf hc =
     \<lparr>Client = Some (clientOf hc), PageSize = 2, EventID = ''AMS25'', DelayBetweenRequests = 1000\<rparr>"

definition bare :: "string \<Rightarrow> Profile" where
  "bare attendeeID = zeroProfile\<lparr>ID := attendeeID\<rparr>"

definition fullWalk :: "exchange list" where
  "fullWalk =
     [ListExchange ''AMS25'' 1 2 (pageReply [''a'', ''b'']),
      DetailExchange ''AMS25'' ''a'' (Response 200 [] (Inr (attendee ''a''))),
      DetailExchange ''AMS25'' ''b'' (Response 200 [] (Inr (attendee ''b''))),
      ListExchange ''AMS25'' 2 2 (pageReply [''c'']),
      DetailExchange ''AMS25'' ''c'' (Response 200 [] (Inr (attendee ''c'')))]"


section \<open>Evaluation\<close>

lemmas TrimSpace_eval = TrimSpace_def TrimLeft.simps TrimRight.simps leadingSpace_def
  trailingSpace_def spaceRunes_def asciiSpace_def unicodeSpace_def

section \<open>Candidate URLs of one search\<close>

lemma collectLinks_filter:
  "collectLinks items personal other =
     (personal @ filter isPersonal (map (\<lambda>item. TrimSpace (Link item)) items),
      other @ filter isOther (map (\<lambda>item. TrimSpace (Link item)) items))"
  by (induction items arbitrary: personal other) (auto simp: Let_def isPersonal_def isOther_def)

text \<open>
  C1, as stated, fails: the candidates are not the returned links themselves. A returned
  link with a leading blank contains the personal pattern, and the candidate is that link
  without the blank.
\<close>

theorem searchOnce_links_counterexample:
  "fst (fst (searchOnce
       (NewMatcher (answering (Response 200 []
          (Inr \<lparr>Items = [\<lparr>Link = '' https://linkedin.com/in/y''\<rparr>]\<rparr>))) ''key'' ''cx'' 1000000000)
       ''Ada site:linkedin.com'' []))
   \<noteq> filter isPersonal ['' https://linkedin.com/in/y''] @
     filter isOther ['' https://linkedin.com/in/y'']"
  by (simp add: searchOnce_def searchResult_def NewMatcher_def answering_def isPersonal_def
      isOther_def TrimSpace_eval)

text \<open>
  C1, amended: when the search request is answered with status 200 and a body that decodes,
  \<open>searchOnce\<close> returns no error and, as candidates, the returned links with the white space
  around them removed: first those containing \<open>linkedin.com/in/\<close>, in their original
  relative order, then those containing \<open>linkedin.com/\<close> but not the personal pattern, in
  their original relative order, and no other link.
\<close>

theorem searchOnce_candidates:
  assumes "getSearch (httpClient m) h (searchAPIKey m) (searchEngineID m) query ''10'' =
             Response 200 body (Inr sr)"
  shows "fst (searchOnce m query h) =
     (filter isPersonal (map (\<lambda>item. TrimSpace (Link item)) (Items sr)) @
      filter isOther (map (\<lambda>item. TrimSpace (Link item)) (Items sr)), None)"
  using assms by (simp add: searchOnce_def searchResult_def collectLinks_filter Let_def)

text \<open>The example of the specification: one company link followed by two personal links.\<close>

theorem searchOnce_candidates_witness:
  "fst (searchOnce
       (NewMatcher (answering (Response 200 []
          (Inr \<lparr>Items = [\<lparr>Link = ''https://linkedin.com/company/x''\<rparr>,
                          \<lparr>Link = ''https://linkedin.com/in/y''\<rparr>,
                          \<lparr>Link = ''https://linkedin.com/in/z''\<rparr>]\<rparr>))) ''key'' ''cx'' 1000000000)
       ''Ada site:linkedin.com'' []) =
   ([''https://linkedin.com/in/y'', ''https://linkedin.com/in/z'',
     ''https://linkedin.com/company/x''], None)"
  using searchOnce_candidates [of
      "NewMatcher (answering (Response 200 []
          (Inr \<lparr>Items = [\<lparr>Link = ''https://linkedin.com/company/x''\<rparr>,
                          \<lparr>Link = ''https://linkedin.com/in/y''\<rparr>,
                          \<lparr>Link = ''https://linkedin.com/in/z''\<rparr>]\<rparr>))) ''key'' ''cx'' 1000000000"
      "[]" "''Ada site:linkedin.com''" "[]"
      "\<lparr>Items = [\<lparr>Link = ''https://linkedin.com/company/x''\<rparr>,
                 \<lparr>Link = ''https://linkedin.com/in/y''\<rparr>,
                 \<lparr>Link = ''https://linkedin.com/in/z''\<rparr>]\<rparr>"]
  by (simp add: NewMatcher_def answering_def isPersonal_def isOther_def TrimSpace_eval)

section \<open>The continuation flag\<close>

text \<open>
  C3: for every page size \<open>s\<close>, when the listing request is answered with status 200 and a
  body that decodes, \<open>ListProfiles\<close> returns no error, \<open>HasNext\<close> is true if the response holds
  exactly \<open>s\<close> items and false if it holds fewer.
\<close>

theorem ListProfiles_HasNext:
  assumes "eventID \<noteq> []" and "BaseURL c \<noteq> []"
    and "getAttendees (HTTPClient c) h eventID page s = Response 200 body (Inr apiResp)"
  shows "snd (fst (ListProfiles c eventID page s h)) = None \<and>
    (int (length (Data apiResp)) = s \<longrightarrow> HasNext (fst (fst (ListProfiles c eventID page s h)))) \<and>
    (int (length (Data apiResp)) < s \<longrightarrow> \<not> HasNext (fst (fst (ListProfiles c eventID page s h))))"
  using assms by (auto simp: ListProfiles_def Let_def)

theorem ListProfiles_HasNext_witness:
  "HasNext (fst (fst (ListProfiles
      (clientOf (listing (Response 200 []
         (Inr \<lparr>Data = [\<lparr>item_ID = ''a''\<rparr>, \<lparr>item_ID = ''b''\<rparr>]\<rparr>)))) ''AMS25'' 1 2 []))) \<and>
   \<not> HasNext (fst (fst (ListProfiles
      (clientOf (listing (Response 200 [] (Inr \<lparr>Data = [\<lparr>item_ID = ''c''\<rparr>]\<rparr>)))) ''AMS25'' 2 2 [])))"
proof -
  let ?c1 = "clientOf (listing (Response 200 []
         (Inr \<lparr>Data = [\<lparr>item_ID = ''a''\<rparr>, \<lparr>item_ID = ''b''\<rparr>]\<rparr>)))"
  let ?c2 = "clientOf (listing (Response 200 [] (Inr \<lparr>Data = [\<lparr>item_ID = ''c''\<rparr>]\<rparr>)))"
  have full: "HasNext (fst (fst (ListProfiles ?c1 ''AMS25'' 1 2 [])))"
    using ListProfiles_HasNext [of "''AMS25''" ?c1 "[]" 1 2 "[]"
        "\<lparr>Data = [\<lparr>item_ID = ''a''\<rparr>, \<lparr>item_ID = ''b''\<rparr>]\<rparr>"]
    by (simp add: clientOf_def listing_def)
  have short: "\<not> HasNext (fst (fst (ListProfiles ?c2 ''AMS25'' 2 2 [])))"
    using ListProfiles_HasNext [of "''AMS25''" ?c2 "[]" 2 2 "[]" "\<lparr>Data = [\<lparr>item_ID = ''c''\<rparr>]\<rparr>"]
    by (simp add: clientOf_def listing_def)
  show ?thesis using full short by simp
qed

section \<open>Detail mapping\<close>

lemma fillFromIncluded_no_match:
  "\<forall>inc \<in> set incs. \<not> (inc_Type inc = ''user'' \<and> inc_ID inc = userID) \<Longrightarrow>
   fillFromIncluded incs userID profile = profile"
  by (induction incs) auto

text \<open>
  C8: when no entry of \<open>included\<close> has type \<open>user\<close> and the id that the primary record refers
  to, the mapping returns a Profile with the primary id and every other field empty.
\<close>

theorem mapBrellaDetailToProfile_no_user:
  assumes "\<forall>inc \<in> set (Included resp). \<not> (inc_Type inc = ''user'' \<and> inc_ID inc = user_ID resp)"
  shows "mapBrellaDetailToProfile resp =
    \<lparr>ID = data_ID resp, Name = [], Title = [], Company = [], Location = [],
     LinkedInURL = [], PossibleLinkedInURLs = []\<rparr>"
  using fillFromIncluded_no_match [OF assms]
  by (simp add: mapBrellaDetailToProfile_def zeroProfile_def Let_def)

theorem mapBrellaDetailToProfile_no_user_witness:
  "mapBrellaDetailToProfile
     \<lparr>data_ID = ''17'', data_Type = ''attendee'', user_ID = ''5'', user_Type = ''user'',
      Included = [\<lparr>inc_ID = ''6'', inc_Type = ''user'', Attributes = someAttributes\<rparr>,
                  \<lparr>inc_ID = ''5'', inc_Type = ''group'', Attributes = someAttributes\<rparr>]\<rparr> =
    \<lparr>ID = ''17'', Name = [], Title = [], Company = [], Location = [],
     LinkedInURL = [], PossibleLinkedInURLs = []\<rparr>"
  using mapBrellaDetailToProfile_no_user [of
     "\<lparr>data_ID = ''17'', data_Type = ''attendee'', user_ID = ''5'', user_Type = ''user'',
      Included = [\<lparr>inc_ID = ''6'', inc_Type = ''user'', Attributes = someAttributes\<rparr>,
                  \<lparr>inc_ID = ''5'', inc_Type = ''group'', Attributes = someAttributes\<rparr>]\<rparr>"]
  by simp

section \<open>The two forms of the enrichment loop\<close>

lemma enrichFrom_enrichEach:
  "i \<le> length out \<Longrightarrow>
   enrichFrom quote m i out h =
     (case enrichEach quote m (drop i out) h of ((r, e), h') \<Rightarrow> ((take i out @ r, e), h'))"
proof (induction quote m i out h rule: enrichFrom.induct)
  case (1 quote m i out h)
  show ?case
  proof (cases "length out \<le> i")
    case True
    with "1.prems" show ?thesis by (subst enrichFrom.simps) simp
  next
    case False
    then have lt: "i < length out" by simp
    have dr: "drop i out = out ! i # drop (Suc i) out"
      using lt by (simp add: Cons_nth_drop_Suc)
    have tk: "take (Suc i) out = take i out @ [out ! i]"
      using lt by (simp add: take_Suc_conv_app_nth)
    have upd: "\<And>x. take (Suc i) (out[i := x]) = take i out @ [x]"
      using lt by (simp add: take_Suc_conv_app_nth)
    show ?thesis
    proof (cases "skipped (out ! i)")
      case True
      then have sk: "LinkedInURL (out ! i) \<noteq> [] \<or> TrimSpace (Name (out ! i)) = []"
        by (simp add: skipped_def)
      have "enrichFrom quote m i out h = enrichFrom quote m (i + 1) out h"
        using lt sk by (subst enrichFrom.simps) (simp add: Let_def)
      also have "\<dots> = (case enrichEach quote m (drop (i + 1) out) h of
                          ((r, e), h') \<Rightarrow> ((take (i + 1) out @ r, e), h'))"
        using "1.IH"(1) [OF False refl sk] lt by simp
      finally show ?thesis
        using True by (simp add: dr tk split: prod.splits)
    next
      case False
      then have nsk: "\<not> (LinkedInURL (out ! i) \<noteq> [] \<or> TrimSpace (Name (out ! i)) = [])"
        by (simp add: skipped_def)
      obtain urls e h' where f: "findLinkedInCandidates quote m (out ! i) h = ((urls, e), h')"
        by (metis prod.exhaust)
      show ?thesis
      proof (cases e)
        case (Some err)
        then show ?thesis
          using lt nsk f False id_take_nth_drop [OF lt, symmetric]
          by (subst enrichFrom.simps) (simp add: Let_def dr)
      next
        case None
        note IHs = "1.IH"(2-4) [OF \<open>\<not> length out \<le> i\<close> refl nsk]
        show ?thesis
        proof (cases "urls = []")
          case True
          have "enrichFrom quote m i out h = enrichFrom quote m (i + 1) out h'"
            using lt nsk f None True by (subst enrichFrom.simps) (simp add: Let_def)
          also have "\<dots> = (case enrichEach quote m (drop (i + 1) out) h' of
                          ((r, e), h') \<Rightarrow> ((take (i + 1) out @ r, e), h'))"
            using IHs(3) f None True lt by simp
          finally show ?thesis
            using False f None True by (simp add: dr tk withCandidates_def split: prod.splits)
        next
          case ne: False
          show ?thesis
          proof (cases "length urls > 1")
            case True
            let ?x = "(out ! i)\<lparr>LinkedInURL := hd urls, PossibleLinkedInURLs := tl urls\<rparr>"
            have "enrichFrom quote m i out h = enrichFrom quote m (i + 1) (out[i := ?x]) h'"
              using lt nsk f None True ne by (subst enrichFrom.simps) (simp add: Let_def)
            also have "\<dots> = (case enrichEach quote m (drop (i + 1) (out[i := ?x])) h' of
                          ((r, e), h') \<Rightarrow> ((take (i + 1) (out[i := ?x]) @ r, e), h'))"
              using IHs(1) f None True ne lt by simp
            finally show ?thesis
              using False f None True ne
              by (simp add: dr upd withCandidates_def split: prod.splits)
          next
            case F2: False
            let ?x = "(out ! i)\<lparr>LinkedInURL := hd urls\<rparr>"
            have "enrichFrom quote m i out h = enrichFrom quote m (i + 1) (out[i := ?x]) h'"
              using lt nsk f None F2 ne by (subst enrichFrom.simps) (simp add: Let_def)
            also have "\<dots> = (case enrichEach quote m (drop (i + 1) (out[i := ?x])) h' of
                          ((r, e), h') \<Rightarrow> ((take (i + 1) (out[i := ?x]) @ r, e), h'))"
              using IHs(2) f None F2 ne lt by simp
            finally show ?thesis
              using False f None F2 ne
              by (simp add: dr upd withCandidates_def split: prod.splits)
          qed
        qed
      qed
    qed
  qed
qed

lemma EnrichProfiles_enrichEach:
  "EnrichProfiles quote m ps h =
     (if \<not> enabled m then ((ps, None), h) else enrichEach quote m ps h)"
  by (simp add: EnrichProfiles_def enrichFrom_enrichEach split: prod.splits)

section \<open>The example run of the Matcher\<close>

text \<open>
  Three profiles: the first is matched by the second query variant, the second already has
  a URL, the search for the third is refused with status 503.
\<close>

lemmas run_eval = EnrichProfiles_enrichEach skipped_def withCandidates_def
  findLinkedInCandidates_def searchOnce_def searchResult_def NewMatcher_def searching_def
  found_def quoted_def ada_def bob_def carol_def adaOnly_def Let_def matcher_def
  ada'_def adaFirst_def adaSecond_def bobFirst_def TrimSpace_eval

lemma findLinkedInCandidates_ada:
  "findLinkedInCandidates quoted matcher ada h =
     (([''https://linkedin.com/in/ada'', ''https://linkedin.com/company/analytical''], None),
      h @ [adaFirst, adaSecond])"
  by (simp add: run_eval)

lemma findLinkedInCandidates_bob:
  "findLinkedInCandidates quoted matcher bob h =
     (([], Some (SearchStatus 503 ''quota exceeded'')), h @ [bobFirst])"
  by (simp add: run_eval)

lemma skipped_eval:
  "\<not> skipped ada" "\<not> skipped bob" "skipped carol"
  by (simp_all add: run_eval)

lemma enabled_matcher: "enabled matcher"
  by (simp add: matcher_def NewMatcher_def)

lemma EnrichProfiles_run:
  "EnrichProfiles quoted matcher [ada, carol, bob] [] =
     (([ada', carol, bob], Some (SearchError ''Bob'' ''2'' (SearchStatus 503 ''quota exceeded''))),
      [adaFirst, adaSecond, bobFirst])"
  by (simp add: EnrichProfiles_enrichEach enabled_matcher skipped_eval
      findLinkedInCandidates_ada findLinkedInCandidates_bob)
     (simp add: withCandidates_def ada'_def bob_def)

lemma nonblank_ada: "TrimSpace (Name ada) \<noteq> []"
  by (simp add: ada_def TrimSpace_eval)

section \<open>The cascade of query variants\<close>

lemma searchResult_error_Nil: "searchResult r = (urls, Some err) \<Longrightarrow> urls = []"
  by (auto simp: searchResult_def split: reply.splits if_splits sum.splits prod.splits)

lemma tryQueries_trace:
  "queries \<noteq> [] \<Longrightarrow> tryQueries m queries h = ((urls, e), h') \<Longrightarrow>
   \<exists>k. 1 \<le> k \<and> k \<le> length queries \<and>
       h' = h @ exchanges m (take k queries) h \<and>
       (\<forall>ex \<in> set (butlast (exchanges m (take k queries) h)). outcome ex = ([], None)) \<and>
       (urls, e) = outcome (last (exchanges m (take k queries) h)) \<and>
       (k < length queries \<longrightarrow> urls \<noteq> [] \<or> e \<noteq> None)"
proof (induction queries arbitrary: h)
  case Nil
  then show ?case by simp
next
  case (Cons query queries)
  let ?ex = "SearchExchange (searchAPIKey m) (searchEngineID m) query ''10''
                 (getSearch (httpClient m) h (searchAPIKey m) (searchEngineID m) query ''10'')"
  have so: "searchOnce m query h = (outcome ?ex, h @ [?ex])"
    by (simp add: searchOnce_def Let_def outcome_def)
  obtain us er where oc: "outcome ?ex = (us, er)" by (cases "outcome ?ex")
  show ?case
  proof (cases "er \<noteq> None \<or> us \<noteq> []")
    case True
    have usnil: "er \<noteq> None \<Longrightarrow> us = []"
      using oc searchResult_error_Nil by (auto simp: outcome_def)
    from True Cons.prems(2) so oc usnil have "(urls, e) = (us, er) \<and> h' = h @ [?ex]"
      by (auto split: option.splits if_splits)
    then show ?thesis
      using oc True by (intro exI [of _ 1]) (auto simp: Let_def)
  next
    case False
    then have f: "er = None" "us = []" by auto
    show ?thesis
    proof (cases "queries = []")
      case True
      with Cons.prems(2) so oc f have "(urls, e) = ([], None) \<and> h' = h @ [?ex]"
        by auto
      then show ?thesis
        using oc f True by (intro exI [of _ 1]) (auto simp: Let_def)
    next
      case ne: False
      from Cons.prems(2) so oc f have "tryQueries m queries (h @ [?ex]) = ((urls, e), h')"
        by auto
      from Cons.IH [OF ne this] obtain k where k: "1 \<le> k" "k \<le> length queries"
        "h' = (h @ [?ex]) @ exchanges m (take k queries) (h @ [?ex])"
        "\<forall>ex \<in> set (butlast (exchanges m (take k queries) (h @ [?ex]))). outcome ex = ([], None)"
        "(urls, e) = outcome (last (exchanges m (take k queries) (h @ [?ex])))"
        "k < length queries \<longrightarrow> urls \<noteq> [] \<or> e \<noteq> None"
        by blast
      have nonempty: "exchanges m (take k queries) (h @ [?ex]) \<noteq> []"
        using k(1) ne by (cases queries; cases k) (auto simp: Let_def)
      show ?thesis
        using k oc f nonempty
        by (intro exI [of _ "Suc k"]) (auto simp: Let_def butlast_append)
    qed
  qed
qed

lemma findLinkedInCandidates_variants:
  assumes "TrimSpace (Name p) \<noteq> []"
    and "findLinkedInCandidates quote m p h = ((urls, e), h')"
  shows "\<exists>k. 1 \<le> k \<and> k \<le> length (variants quote p) \<and>
       h' = h @ exchanges m (take k (variants quote p)) h \<and>
       (\<forall>ex \<in> set (butlast (exchanges m (take k (variants quote p)) h)). outcome ex = ([], None)) \<and>
       (urls, e) = outcome (last (exchanges m (take k (variants quote p)) h)) \<and>
       (k < length (variants quote p) \<longrightarrow> urls \<noteq> [] \<or> e \<noteq> None)"
proof -
  have "tryQueries m (variants quote p) h = ((urls, e), h')"
    using assms by (auto simp: findLinkedInCandidates_def variants_def Let_def split: if_splits)
  moreover have "variants quote p \<noteq> []" by (simp add: variants_def)
  ultimately show ?thesis by (rule tryQueries_trace [rotated])
qed

text \<open>
  C7: for a profile whose name is not blank, \<open>findLinkedInCandidates\<close> searches for the
  first \<open>k\<close> of the variants (the quoted name with the quoted company only when the company
  is not blank, the quoted name, the name as it is; each with the site restriction), in that
  order, with one request each that asks for 10 results, and for nothing else. Every variant
  before the last one tried gave no candidate and no error; what it returns is what the last
  one tried gave; and it stops before the end of the list only at a variant that gave a
  candidate (or an error).
\<close>

theorem findLinkedInCandidates_cascade:
  assumes "TrimSpace (Name p) \<noteq> []"
    and "findLinkedInCandidates quote m p h = ((urls, e), h')"
  shows "\<exists>k. 1 \<le> k \<and> k \<le> length (variants quote p) \<and>
       h' = h @ exchanges m (take k (variants quote p)) h \<and>
       (\<forall>ex \<in> set (butlast (exchanges m (take k (variants quote p)) h)). outcome ex = ([], None)) \<and>
       (urls, e) = outcome (last (exchanges m (take k (variants quote p)) h)) \<and>
       (k < length (variants quote p) \<longrightarrow> urls \<noteq> [] \<or> e \<noteq> None)"
  using assms by (rule findLinkedInCandidates_variants)

theorem findLinkedInCandidates_cascade_witness:
  "\<exists>k. 1 \<le> k \<and> k \<le> length (variants quoted ada) \<and>
       [] @ [adaFirst, adaSecond] = [] @ exchanges matcher (take k (variants quoted ada)) [] \<and>
       (\<forall>ex \<in> set (butlast (exchanges matcher (take k (variants quoted ada)) [])).
          outcome ex = ([], None)) \<and>
       ([''https://linkedin.com/in/ada'', ''https://linkedin.com/company/analytical''], None) =
         outcome (last (exchanges matcher (take k (variants quoted ada)) [])) \<and>
       (k < length (variants quoted ada) \<longrightarrow>
          [''https://linkedin.com/in/ada'', ''https://linkedin.com/company/analytical''] \<noteq> [] \<or>
          (None :: error option) \<noteq> None)"
  by (rule findLinkedInCandidates_cascade [OF nonblank_ada findLinkedInCandidates_ada])

section \<open>What enrichment leaves as it is\<close>

lemma frame_withCandidates [simp]: "frame (withCandidates p urls) = frame p"
  by (simp add: frame_def withCandidates_def)

lemma enrichEach_frame:
  "enrichEach quote m ps h = ((out, e), h') \<Longrightarrow> map frame out = map frame ps"
  by (induction ps arbitrary: h out e h')
     (auto split: if_splits prod.splits option.splits)

text \<open>
  C10: whether or not a search fails, \<open>EnrichProfiles\<close> returns as many profiles as it
  was given, and at each position the id, name, title, company and location of the input.
\<close>

theorem EnrichProfiles_frame:
  "length (fst (fst (EnrichProfiles quote m ps h))) = length ps \<and>
   map frame (fst (fst (EnrichProfiles quote m ps h))) = map frame ps"
proof -
  obtain out e h' where r: "enrichEach quote m ps h = ((out, e), h')"
    by (metis prod.exhaust)
  from enrichEach_frame [OF r] have m: "map frame out = map frame ps" .
  then have "length out = length ps" by (metis length_map)
  with m r show ?thesis by (simp add: EnrichProfiles_enrichEach)
qed

theorem EnrichProfiles_frame_witness:
  "length (fst (fst (EnrichProfiles quoted matcher [ada, carol, bob] []))) = 3 \<and>
   map frame (fst (fst (EnrichProfiles quoted matcher [ada, carol, bob] []))) =
     [(''1'', ''Ada Lovelace'', ''Engineer'', ''Analytical'', ''GB''),
      (''3'', ''Carol'', [], ''Acme'', []), (''2'', ''Bob'', [], [], [])]"
  using EnrichProfiles_frame [of quoted matcher "[ada, carol, bob]" "[]"]
  by (simp add: frame_def ada_def bob_def carol_def)

lemma enrichEach_length:
  "enrichEach quote m ps h = ((out, e), h') \<Longrightarrow> length out = length ps"
  using enrichEach_frame by (metis length_map)

lemma enrichEach_append:
  "enrichEach quote m (xs @ ys) h =
     (case enrichEach quote m xs h of
        ((r1, Some err), h1) \<Rightarrow> ((r1 @ ys, Some err), h1)
      | ((r1, None), h1) \<Rightarrow>
          (case enrichEach quote m ys h1 of ((r2, e2), h2) \<Rightarrow> ((r1 @ r2, e2), h2)))"
  by (induction xs arbitrary: h) (auto split: prod.splits option.splits)

text \<open>
  C5: a profile whose \<open>LinkedInURL\<close> is not empty, or whose trimmed name is empty, is
  returned unchanged at its position, and the pass makes for it no request: the error, the
  history and the other profiles of the output are those of the pass over the input without
  that profile.
\<close>

theorem EnrichProfiles_skips:
  assumes "LinkedInURL p \<noteq> [] \<or> TrimSpace (Name p) = []"
  shows "EnrichProfiles quote m (xs @ p # ys) h =
     (case EnrichProfiles quote m (xs @ ys) h of
        ((out, e), h') \<Rightarrow> ((take (length xs) out @ p # drop (length xs) out, e), h'))"
proof -
  have sk: "skipped p" using assms by (simp add: skipped_def)
  obtain r1 e1 h1 where x: "enrichEach quote m xs h = ((r1, e1), h1)"
    by (metis prod.exhaust)
  have l: "length r1 = length xs" using enrichEach_length [OF x] .
  obtain r2 e2 h2 where y: "enrichEach quote m ys h1 = ((r2, e2), h2)"
    by (metis prod.exhaust)
  show ?thesis
    using x y l sk
    by (cases e1) (simp_all add: EnrichProfiles_enrichEach enrichEach_append)
qed

theorem EnrichProfiles_skips_witness:
  "EnrichProfiles quoted matcher ([ada] @ carol # [bob]) [] =
     (case EnrichProfiles quoted matcher ([ada] @ [bob]) [] of
        ((out, e), h') \<Rightarrow> ((take (length [ada]) out @ carol # drop (length [ada]) out, e), h'))"
proof -
  have "LinkedInURL carol \<noteq> [] \<or> TrimSpace (Name carol) = []"
    by (simp add: carol_def)
  then show ?thesis by (rule EnrichProfiles_skips)
qed

section \<open>A failed search\<close>

lemma outcome_error_Nil: "outcome ex = (urls, Some err) \<Longrightarrow> urls = []"
  by (auto simp: outcome_def split: exchange.splits dest: searchResult_error_Nil)

lemma in_set_last_or_butlast: "x \<in> set xs \<Longrightarrow> x = last xs \<or> x \<in> set (butlast xs)"
  by (induction xs) auto

lemma findLinkedInCandidates_trace:
  assumes "findLinkedInCandidates quote m p h = ((urls, e), h')"
  shows "\<exists>new. h' = h @ new \<and>
     (\<forall>ex \<in> set (butlast new). snd (outcome ex) = None) \<and>
     (e = None \<longrightarrow> (\<forall>ex \<in> set new. snd (outcome ex) = None)) \<and>
     (\<forall>err. e = Some err \<longrightarrow> new \<noteq> [] \<and> snd (outcome (last new)) = Some err \<and> urls = [])"
proof (cases "TrimSpace (Name p) = []")
  case True
  with assms have "h' = h" "e = None"
    by (auto simp: findLinkedInCandidates_def Let_def)
  then show ?thesis by (intro exI [of _ "[]"]) simp
next
  case False
  from findLinkedInCandidates_variants [OF False assms] obtain k where k:
    "1 \<le> k" "k \<le> length (variants quote p)"
    "h' = h @ exchanges m (take k (variants quote p)) h"
    "\<forall>ex \<in> set (butlast (exchanges m (take k (variants quote p)) h)). outcome ex = ([], None)"
    "(urls, e) = outcome (last (exchanges m (take k (variants quote p)) h))"
    by blast
  let ?new = "exchanges m (take k (variants quote p)) h"
  have ne: "?new \<noteq> []"
    using k(1,2) by (cases "variants quote p"; cases k) (auto simp: Let_def)
  have bl: "\<forall>ex \<in> set (butlast ?new). snd (outcome ex) = None"
    using k(4) by simp
  have "e = None \<longrightarrow> (\<forall>ex \<in> set ?new. snd (outcome ex) = None)"
  proof
    assume "e = None"
    then have "snd (outcome (last ?new)) = None" using k(5) by (metis snd_conv)
    then show "\<forall>ex \<in> set ?new. snd (outcome ex) = None"
      using bl in_set_last_or_butlast by metis
  qed
  moreover have "\<forall>err. e = Some err \<longrightarrow> ?new \<noteq> [] \<and> snd (outcome (last ?new)) = Some err \<and> urls = []"
    using ne k(5) outcome_error_Nil by (metis snd_conv)
  ultimately show ?thesis using k(3) bl by blast
qed

lemma enrichEach_ok_trace:
  "enrichEach quote m ps h = ((out, None), h') \<Longrightarrow>
   \<exists>new. h' = h @ new \<and> (\<forall>ex \<in> set new. snd (outcome ex) = None)"
proof (induction ps arbitrary: h out h')
  case Nil
  then show ?case by simp
next
  case (Cons p ps)
  show ?case
  proof (cases "skipped p")
    case True
    then obtain out1 where "enrichEach quote m ps h = ((out1, None), h')"
      using Cons.prems by (auto split: prod.splits)
    then show ?thesis by (rule Cons.IH)
  next
    case False
    obtain urls e1 h1 where f: "findLinkedInCandidates quote m p h = ((urls, e1), h1)"
      by (metis prod.exhaust)
    have e1: "e1 = None"
      using Cons.prems False f by (cases e1) auto
    obtain out1 where r: "enrichEach quote m ps h1 = ((out1, None), h')"
      using Cons.prems False f e1 by (auto split: prod.splits)
    from findLinkedInCandidates_trace [OF f] e1 obtain new1 where
      n1: "h1 = h @ new1" "\<forall>ex \<in> set new1. snd (outcome ex) = None"
      by blast
    from Cons.IH [OF r] obtain new2 where
      n2: "h' = h1 @ new2" "\<forall>ex \<in> set new2. snd (outcome ex) = None"
      by blast
    have "h' = h @ (new1 @ new2) \<and> (\<forall>ex \<in> set (new1 @ new2). snd (outcome ex) = None)"
      using n1 n2 by auto
    then show ?thesis by blast
  qed
qed

lemma enrichEach_error_split:
  "enrichEach quote m ps h = ((out, Some e), h') \<Longrightarrow>
   \<exists>i err hp. i < length ps \<and>
     enrichEach quote m (take i ps) h = ((take i out, None), hp) \<and>
     \<not> skipped (ps ! i) \<and>
     findLinkedInCandidates quote m (ps ! i) hp = (([], Some err), h') \<and>
     e = SearchError (Name (ps ! i)) (ID (ps ! i)) err \<and>
     drop i out = drop i ps"
proof (induction ps arbitrary: h out h')
  case Nil
  then show ?case by simp
next
  case (Cons p ps)
  show ?case
  proof (cases "skipped p")
    case True
    then obtain out1 where r: "enrichEach quote m ps h = ((out1, Some e), h')"
      and o: "out = p # out1"
      using Cons.prems by (auto split: prod.splits)
    from Cons.IH [OF r] obtain i err hp where i: "i < length ps"
      "enrichEach quote m (take i ps) h = ((take i out1, None), hp)"
      "\<not> skipped (ps ! i)"
      "findLinkedInCandidates quote m (ps ! i) hp = (([], Some err), h')"
      "e = SearchError (Name (ps ! i)) (ID (ps ! i)) err"
      "drop i out1 = drop i ps"
      by blast
    show ?thesis
      by (rule exI [of _ "Suc i"], rule exI [of _ err], rule exI [of _ hp])
         (use i o True in simp)
  next
    case False
    obtain urls e1 h1 where f: "findLinkedInCandidates quote m p h = ((urls, e1), h1)"
      by (metis prod.exhaust)
    show ?thesis
    proof (cases e1)
      case (Some err)
      have u: "urls = []"
        using findLinkedInCandidates_trace [OF f] Some by blast
      have res: "out = p # ps" "e = SearchError (Name p) (ID p) err" "h' = h1"
        using Cons.prems False f Some by auto
      show ?thesis
        by (rule exI [of _ 0], rule exI [of _ err], rule exI [of _ h])
           (use res f Some u False in simp)
    next
      case None
      obtain out1 where r: "enrichEach quote m ps h1 = ((out1, Some e), h')"
        and o: "out = withCandidates p urls # out1"
        using Cons.prems False f None by (auto split: prod.splits)
      from Cons.IH [OF r] obtain i err hp where i: "i < length ps"
        "enrichEach quote m (take i ps) h1 = ((take i out1, None), hp)"
        "\<not> skipped (ps ! i)"
        "findLinkedInCandidates quote m (ps ! i) hp = (([], Some err), h')"
        "e = SearchError (Name (ps ! i)) (ID (ps ! i)) err"
        "drop i out1 = drop i ps"
        by blast
      show ?thesis
        by (rule exI [of _ "Suc i"], rule exI [of _ err], rule exI [of _ hp])
           (use i o False f None in simp)
    qed
  qed
qed

text \<open>
  C4: when a search request of the pass fails (no response, a status other than 200, or a
  body that does not decode), it is the last request of the pass and the only one that
  failed. It was made for the profile at some index \<open>i\<close>; the profiles before \<open>i\<close> are
  returned as a complete pass over them returns them, the profiles from \<open>i\<close> on are returned
  unchanged, and the error returned names the profile at \<open>i\<close> and wraps the error of the
  request.
\<close>

theorem EnrichProfiles_stops_at_failure:
  assumes run: "EnrichProfiles quote m ps h = ((out, e), h')"
    and ex: "ex \<in> set (drop (length h) h')" and failed: "snd (outcome ex) \<noteq> None"
  shows "\<exists>i err hp. i < length ps \<and>
      EnrichProfiles quote m (take i ps) h = ((take i out, None), hp) \<and>
      findLinkedInCandidates quote m (ps ! i) hp = (([], Some err), h') \<and>
      ex = last h' \<and> snd (outcome ex) = Some err \<and>
      (\<forall>ex' \<in> set (butlast (drop (length h) h')). snd (outcome ex') = None) \<and>
      e = Some (SearchError (Name (ps ! i)) (ID (ps ! i)) err) \<and>
      drop i out = drop i ps"
proof -
  have en: "enabled m"
    using run ex by (cases "enabled m") (auto simp: EnrichProfiles_def)
  then have r: "enrichEach quote m ps h = ((out, e), h')"
    using run by (simp add: EnrichProfiles_enrichEach)
  have "e \<noteq> None"
  proof
    assume "e = None"
    with r enrichEach_ok_trace obtain new where
      "h' = h @ new" "\<forall>ex \<in> set new. snd (outcome ex) = None" by blast
    with ex failed show False by simp
  qed
  then obtain e' where e': "e = Some e'" by blast
  from enrichEach_error_split [OF r [unfolded e']] obtain i err hp where i: "i < length ps"
    "enrichEach quote m (take i ps) h = ((take i out, None), hp)"
    "findLinkedInCandidates quote m (ps ! i) hp = (([], Some err), h')"
    "e' = SearchError (Name (ps ! i)) (ID (ps ! i)) err"
    "drop i out = drop i ps"
    by blast
  from enrichEach_ok_trace [OF i(2)] obtain newp where
    np: "hp = h @ newp" "\<forall>ex \<in> set newp. snd (outcome ex) = None" by blast
  from findLinkedInCandidates_trace [OF i(3)] obtain newf where
    nf: "h' = hp @ newf" "\<forall>ex \<in> set (butlast newf). snd (outcome ex) = None"
      "newf \<noteq> []" "snd (outcome (last newf)) = Some err" by blast
  have new: "drop (length h) h' = newp @ newf" using np(1) nf(1) by simp
  have bl: "\<forall>ex' \<in> set (butlast (drop (length h) h')). snd (outcome ex') = None"
    using new np(2) nf(2,3) by (auto simp: butlast_append)
  have "ex \<in> set newf" using ex failed new np(2) by auto
  then have "ex = last newf"
    using in_set_last_or_butlast [of ex newf] nf(2) failed by auto
  then have l: "ex = last h'" "snd (outcome ex) = Some err"
    using nf(1,3,4) by simp_all
  show ?thesis
    by (rule exI [of _ i], rule exI [of _ err], rule exI [of _ hp])
       (use i e' l bl en in \<open>simp add: EnrichProfiles_enrichEach\<close>)
qed

theorem EnrichProfiles_stops_at_failure_witness:
  "\<exists>i err hp. i < length [ada, carol, bob] \<and>
      EnrichProfiles quoted matcher (take i [ada, carol, bob]) [] = ((take i [ada', carol, bob], None), hp) \<and>
      findLinkedInCandidates quoted matcher ([ada, carol, bob] ! i) hp =
        (([], Some err), [adaFirst, adaSecond, bobFirst]) \<and>
      bobFirst = last [adaFirst, adaSecond, bobFirst] \<and> snd (outcome bobFirst) = Some err \<and>
      (\<forall>ex' \<in> set (butlast (drop (length ([]::exchange list)) [adaFirst, adaSecond, bobFirst])).
         snd (outcome ex') = None) \<and>
      Some (SearchError ''Bob'' ''2'' (SearchStatus 503 ''quota exceeded'')) =
        Some (SearchError (Name ([ada, carol, bob] ! i)) (ID ([ada, carol, bob] ! i)) err) \<and>
      drop i [ada', carol, bob] = drop i [ada, carol, bob]"
proof -
  have failed: "snd (outcome bobFirst) \<noteq> None"
    by (simp add: outcome_def bobFirst_def searchResult_def)
  show ?thesis
    by (rule EnrichProfiles_stops_at_failure [OF EnrichProfiles_run _ failed]) simp
qed

section \<open>The primary URL and the alternatives\<close>








section \<open>The exchanges of the Walker\<close>

lemma stubProfiles_IDs:
  "map ID (stubProfiles items profiles) =
     map ID profiles @ filter (\<lambda>id. id \<noteq> []) (map item_ID items)"
  by (induction items arbitrary: profiles) (auto simp: zeroProfile_def)

lemma ListProfiles_trace:
  assumes "eventID \<noteq> []" and "BaseURL c \<noteq> []"
    and "ListProfiles c eventID page pageSize h = ((res, e), h1)"
  shows "\<exists>ex. h1 = h @ [ex] \<and>
     (e = None) = (surfaced ex = None) \<and>
     (\<forall>err. e = Some err \<longrightarrow> surfaced ex = Some (ListingPage page err)) \<and>
     pageOf ex = [page] \<and> requested ex = [] \<and> fetched ex = [] \<and>
     (e = None \<longrightarrow> map ID (Profiles res) = filter (\<lambda>id. id \<noteq> []) (listed ex))"
  using assms
  by (auto simp: ListProfiles_def Let_def surfaced_def pageOf_def requested_def fetched_def
      listed_def stubProfiles_IDs split: reply.splits if_splits sum.splits)

lemma GetAttendeeProfile_trace:
  assumes "eventID \<noteq> []" and "BaseURL c \<noteq> []" and "attendeeID \<noteq> []"
    and "GetAttendeeProfile c eventID attendeeID h = ((profile, e), h1)"
  shows "\<exists>ex. h1 = h @ [ex] \<and>
     (e = None) = (surfaced ex = None) \<and>
     (\<forall>err. e = Some err \<longrightarrow> surfaced ex = Some (GettingAttendee attendeeID err)) \<and>
     pageOf ex = [] \<and> listed ex = [] \<and> requested ex = [attendeeID] \<and>
     (e = None \<longrightarrow> fetched ex = [(attendeeID, profile)])"
  using assms
  by (auto simp: GetAttendeeProfile_def Let_def surfaced_def pageOf_def requested_def fetched_def
      listed_def split: reply.splits if_splits sum.splits)

lemma fetchDetails_trace:
  assumes "eventID \<noteq> []" and "BaseURL c \<noteq> []"
  shows "fetchDetails c eventID stubs all h = ((all', e), h2) \<Longrightarrow>
    \<exists>new. h2 = h @ new \<and>
      [] \<notin> set (concat (map requested new)) \<and>
      concat (map listed new) = [] \<and> concat (map pageOf new) = [] \<and>
      (\<forall>ex \<in> set (butlast new). surfaced ex = None) \<and>
      (e = None \<longrightarrow>
         (\<forall>ex \<in> set new. surfaced ex = None) \<and>
         all' = all @ map snd (concat (map fetched new)) \<and>
         concat (map requested new) = map fst (concat (map fetched new)) \<and>
         concat (map requested new) = filter (\<lambda>id. id \<noteq> []) (map ID stubs)) \<and>
      (\<forall>err. e = Some err \<longrightarrow> all' = [] \<and> new \<noteq> [] \<and> surfaced (last new) = Some err)"
proof (induction stubs arbitrary: all h)
  case Nil
  then show ?case by (intro exI [of _ "[]"]) auto
next
  case (Cons stub stubs)
  show ?case
  proof (cases "ID stub = []")
    case True
    with Cons.prems have "fetchDetails c eventID stubs all h = ((all', e), h2)" by simp
    from Cons.IH [OF this]
    have "\<exists>new. h2 = h @ new \<and>
      [] \<notin> set (concat (map requested new)) \<and>
      concat (map listed new) = [] \<and> concat (map pageOf new) = [] \<and>
      (\<forall>ex \<in> set (butlast new). surfaced ex = None) \<and>
      (e = None \<longrightarrow>
         (\<forall>ex \<in> set new. surfaced ex = None) \<and>
         all' = all @ map snd (concat (map fetched new)) \<and>
         concat (map requested new) = map fst (concat (map fetched new)) \<and>
         concat (map requested new) = filter (\<lambda>id. id \<noteq> []) (map ID stubs)) \<and>
      (\<forall>err. e = Some err \<longrightarrow> all' = [] \<and> new \<noteq> [] \<and> surfaced (last new) = Some err)" .
    moreover have "filter (\<lambda>id. id \<noteq> []) (map ID (stub # stubs)) =
       filter (\<lambda>id. id \<noteq> []) (map ID stubs)"
      using True by simp
    ultimately show ?thesis by (simp only:)
  next
    case False
    obtain profile e1 h1 where g: "GetAttendeeProfile c eventID (ID stub) h = ((profile, e1), h1)"
      by (metis prod.exhaust)
    from GetAttendeeProfile_trace [OF assms False g] obtain ex where ex: "h1 = h @ [ex]"
      "(e1 = None) = (surfaced ex = None)"
      "\<forall>err. e1 = Some err \<longrightarrow> surfaced ex = Some (GettingAttendee (ID stub) err)"
      "pageOf ex = []" "listed ex = []" "requested ex = [ID stub]"
      "e1 = None \<longrightarrow> fetched ex = [(ID stub, profile)]"
      by (elim exE conjE) (rule that)
    show ?thesis
    proof (cases e1)
      case (Some err)
      with Cons.prems False g have r: "all' = []" "e = Some (GettingAttendee (ID stub) err)" "h2 = h1"
        by auto
      have sx: "surfaced ex = Some (GettingAttendee (ID stub) err)"
        using ex(3) Some by blast
      have "h2 = h @ [ex] \<and>
        [] \<notin> set (concat (map requested [ex])) \<and>
        concat (map listed [ex]) = [] \<and> concat (map pageOf [ex]) = [] \<and>
        (\<forall>x \<in> set (butlast [ex]). surfaced x = None) \<and>
        (e = None \<longrightarrow>
           (\<forall>x \<in> set [ex]. surfaced x = None) \<and>
           all' = all @ map snd (concat (map fetched [ex])) \<and>
           concat (map requested [ex]) = map fst (concat (map fetched [ex])) \<and>
           concat (map requested [ex]) = filter (\<lambda>id. id \<noteq> []) (map ID (stub # stubs))) \<and>
        (\<forall>err. e = Some err \<longrightarrow> all' = [] \<and> [ex] \<noteq> [] \<and> surfaced (last [ex]) = Some err)"
        using r ex(1,4,5,6) sx False by simp
      then show ?thesis by (rule exI)
    next
      case None
      with Cons.prems False g
      have "fetchDetails c eventID stubs (all @ [profile]) h1 = ((all', e), h2)" by simp
      from Cons.IH [OF this] obtain new where n: "h2 = h1 @ new"
        "[] \<notin> set (concat (map requested new))"
        "concat (map listed new) = []" "concat (map pageOf new) = []"
        "\<forall>ex \<in> set (butlast new). surfaced ex = None"
        "e = None \<longrightarrow>
           (\<forall>ex \<in> set new. surfaced ex = None) \<and>
           all' = (all @ [profile]) @ map snd (concat (map fetched new)) \<and>
           concat (map requested new) = map fst (concat (map fetched new)) \<and>
           concat (map requested new) = filter (\<lambda>id. id \<noteq> []) (map ID stubs)"
        "\<forall>err. e = Some err \<longrightarrow> all' = [] \<and> new \<noteq> [] \<and> surfaced (last new) = Some err"
        by (elim exE conjE) (rule that)
      have s: "surfaced ex = None" using ex(2) None by simp
      have f: "fetched ex = [(ID stub, profile)]" using ex(7) None by simp
      have bl: "\<forall>x \<in> set (butlast (ex # new)). surfaced x = None"
        using n(5) s by (cases new) auto
      have c1: "h2 = h @ (ex # new)" using ex(1) n(1) by simp
      have c2: "[] \<notin> set (concat (map requested (ex # new)))"
        using n(2) ex(6) False by simp
      have c3: "concat (map listed (ex # new)) = [] \<and> concat (map pageOf (ex # new)) = []"
        using n(3,4) ex(4,5) by simp
      have c4: "e = None \<longrightarrow>
           (\<forall>x \<in> set (ex # new). surfaced x = None) \<and>
           all' = all @ map snd (concat (map fetched (ex # new))) \<and>
           concat (map requested (ex # new)) = map fst (concat (map fetched (ex # new))) \<and>
           concat (map requested (ex # new)) = filter (\<lambda>id. id \<noteq> []) (map ID (stub # stubs))"
        using n(6) s f ex(6) False by auto
      have c5: "\<forall>err. e = Some err \<longrightarrow>
           all' = [] \<and> ex # new \<noteq> [] \<and> surfaced (last (ex # new)) = Some err"
        using n(7) by simp
      from c1 c2 c3 bl c4 c5 show ?thesis by blast
    qed
  qed
qed

lemma walkedFrom_Nil: "walkedFrom page all all None []"
  by (auto simp: walkedFrom_def intro: exI [of _ "page - 1"])

lemma walkedFrom_list_failed:
  "surfaced ex = Some err \<Longrightarrow> requested ex = [] \<Longrightarrow> walkedFrom page all [] (Some err) [ex]"
  by (simp add: walkedFrom_def)

lemma walkedFrom_empty_page:
  assumes "surfaced ex = None" "requested ex = []" "fetched ex = []" "pageOf ex = [page]"
    "filter (\<lambda>id. id \<noteq> []) (listed ex) = []"
  shows "walkedFrom page all all None [ex]"
  using assms by (auto simp: walkedFrom_def intro: exI [of _ page])

lemma butlast_clean:
  assumes "\<forall>x \<in> set xs. P x" and "\<forall>x \<in> set (butlast ys). P x"
  shows "\<forall>x \<in> set (butlast (xs @ ys)). P x"
  using assms by (auto simp: butlast_append dest: in_set_butlastD)

lemma walkedFrom_page:
  assumes ex: "surfaced ex = None" "requested ex = []" "fetched ex = []" "pageOf ex = [page]"
      "filter (\<lambda>id. id \<noteq> []) (listed ex) = ids"
    and d: "[] \<notin> set (concat (map requested newd))"
      "concat (map listed newd) = []" "concat (map pageOf newd) = []"
      "\<forall>x \<in> set (butlast newd). surfaced x = None"
      "e = None \<longrightarrow>
         (\<forall>x \<in> set newd. surfaced x = None) \<and>
         all' = all @ map snd (concat (map fetched newd)) \<and>
         concat (map requested newd) = map fst (concat (map fetched newd)) \<and>
         concat (map requested newd) = filter (\<lambda>id. id \<noteq> []) ids"
      "\<forall>err. e = Some err \<longrightarrow> all' = [] \<and> newd \<noteq> [] \<and> surfaced (last newd) = Some err"
  shows "walkedFrom page all all' e (ex # newd)"
proof -
  have f: "filter (\<lambda>id. id \<noteq> []) ids = ids"
    using ex(5) by auto
  have bl: "\<forall>x \<in> set (butlast (ex # newd)). surfaced x = None"
    using butlast_clean [of "[ex]" "\<lambda>x. surfaced x = None" newd] ex(1) d(4) by simp
  have ok: "e = None \<longrightarrow>
         (\<forall>x \<in> set (ex # newd). surfaced x = None) \<and>
         all' = all @ map snd (concat (map fetched (ex # newd))) \<and>
         concat (map requested (ex # newd)) = map fst (concat (map fetched (ex # newd))) \<and>
         concat (map requested (ex # newd)) =
           filter (\<lambda>id. id \<noteq> []) (concat (map listed (ex # newd))) \<and>
         (\<exists>q. page - 1 \<le> q \<and> concat (map pageOf (ex # newd)) = [page..q])"
  proof
    assume "e = None"
    with d(5) have g: "\<forall>x \<in> set newd. surfaced x = None"
      "all' = all @ map snd (concat (map fetched newd))"
      "concat (map requested newd) = map fst (concat (map fetched newd))"
      "concat (map requested newd) = filter (\<lambda>id. id \<noteq> []) ids"
      by auto
    have "page - 1 \<le> page \<and> concat (map pageOf (ex # newd)) = [page..page]"
      using ex(4) d(3) by simp
    then have "\<exists>q. page - 1 \<le> q \<and> concat (map pageOf (ex # newd)) = [page..q]" by (rule exI)
    then show "(\<forall>x \<in> set (ex # newd). surfaced x = None) \<and>
         all' = all @ map snd (concat (map fetched (ex # newd))) \<and>
         concat (map requested (ex # newd)) = map fst (concat (map fetched (ex # newd))) \<and>
         concat (map requested (ex # newd)) =
           filter (\<lambda>id. id \<noteq> []) (concat (map listed (ex # newd))) \<and>
         (\<exists>q. page - 1 \<le> q \<and> concat (map pageOf (ex # newd)) = [page..q])"
      using g ex(1,2,3,5) d(2) f by simp
  qed
  have bad: "\<forall>err. e = Some err \<longrightarrow>
       all' = [] \<and> ex # newd \<noteq> [] \<and> surfaced (last (ex # newd)) = Some err"
    using d(6) by simp
  have rq: "[] \<notin> set (concat (map requested (ex # newd)))"
    using d(1) ex(2) by simp
  show ?thesis
    unfolding walkedFrom_def using rq bl ok bad by (intro conjI)
qed

lemma walkedFrom_step:
  assumes ex: "surfaced ex = None" "requested ex = []" "fetched ex = []" "pageOf ex = [page]"
      "filter (\<lambda>id. id \<noteq> []) (listed ex) = ids"
    and d: "[] \<notin> set (concat (map requested newd))"
      "concat (map listed newd) = []" "concat (map pageOf newd) = []"
      "\<forall>x \<in> set newd. surfaced x = None"
      "all' = all @ map snd (concat (map fetched newd))"
      "concat (map requested newd) = map fst (concat (map fetched newd))"
      "concat (map requested newd) = filter (\<lambda>id. id \<noteq> []) ids"
    and w: "walkedFrom (page + 1) all' ps e new"
  shows "walkedFrom page all ps e (ex # newd @ new)"
proof -
  have f: "filter (\<lambda>id. id \<noteq> []) ids = ids"
    using ex(5) by auto
  have w1: "[] \<notin> set (concat (map requested new))"
    and w2: "\<forall>x \<in> set (butlast new). surfaced x = None"
    and w3: "e = None \<longrightarrow>
         (\<forall>ex \<in> set new. surfaced ex = None) \<and>
         ps = all' @ map snd (concat (map fetched new)) \<and>
         concat (map requested new) = map fst (concat (map fetched new)) \<and>
         concat (map requested new) = filter (\<lambda>id. id \<noteq> []) (concat (map listed new)) \<and>
         (\<exists>q. page + 1 - 1 \<le> q \<and> concat (map pageOf new) = [page + 1..q])"
    and w4: "\<forall>err. e = Some err \<longrightarrow> ps = [] \<and> new \<noteq> [] \<and> surfaced (last new) = Some err"
    using w unfolding walkedFrom_def by blast+
  have rq: "[] \<notin> set (concat (map requested (ex # newd @ new)))"
    using d(1) ex(2) w1 by simp
  have bl: "\<forall>x \<in> set (butlast (ex # newd @ new)). surfaced x = None"
    using butlast_clean [of "ex # newd" "\<lambda>x. surfaced x = None" new] ex(1) d(4) w2 by simp
  have ok: "e = None \<longrightarrow>
         (\<forall>x \<in> set (ex # newd @ new). surfaced x = None) \<and>
         ps = all @ map snd (concat (map fetched (ex # newd @ new))) \<and>
         concat (map requested (ex # newd @ new)) =
           map fst (concat (map fetched (ex # newd @ new))) \<and>
         concat (map requested (ex # newd @ new)) =
           filter (\<lambda>id. id \<noteq> []) (concat (map listed (ex # newd @ new))) \<and>
         (\<exists>q. page - 1 \<le> q \<and> concat (map pageOf (ex # newd @ new)) = [page..q])"
  proof
    assume "e = None"
    with w3 obtain q where g: "\<forall>x \<in> set new. surfaced x = None"
      "ps = all' @ map snd (concat (map fetched new))"
      "concat (map requested new) = map fst (concat (map fetched new))"
      "concat (map requested new) = filter (\<lambda>id. id \<noteq> []) (concat (map listed new))"
      "page \<le> q" "concat (map pageOf new) = [page + 1..q]"
      by auto
    have "page - 1 \<le> q \<and> concat (map pageOf (ex # newd @ new)) = [page..q]"
      using ex(4) d(3) g(5,6) upto_rec1 [of page q] by simp
    then have "\<exists>q. page - 1 \<le> q \<and> concat (map pageOf (ex # newd @ new)) = [page..q]"
      by (rule exI)
    moreover have "ps = all @ map snd (concat (map fetched (ex # newd @ new)))"
      using g(2) d(5) ex(3) by simp
    moreover have "concat (map requested (ex # newd @ new)) =
           map fst (concat (map fetched (ex # newd @ new)))"
      using g(3) d(6) ex(2,3) by simp
    moreover have "concat (map requested (ex # newd @ new)) =
           filter (\<lambda>id. id \<noteq> []) (concat (map listed (ex # newd @ new)))"
      using g(4) d(7) d(2) ex(2,5) f by simp
    moreover have "\<forall>x \<in> set (ex # newd @ new). surfaced x = None"
      using g(1) d(4) ex(1) by auto
    ultimately show "(\<forall>x \<in> set (ex # newd @ new). surfaced x = None) \<and>
         ps = all @ map snd (concat (map fetched (ex # newd @ new))) \<and>
         concat (map requested (ex # newd @ new)) =
           map fst (concat (map fetched (ex # newd @ new))) \<and>
         concat (map requested (ex # newd @ new)) =
           filter (\<lambda>id. id \<noteq> []) (concat (map listed (ex # newd @ new))) \<and>
         (\<exists>q. page - 1 \<le> q \<and> concat (map pageOf (ex # newd @ new)) = [page..q])"
      by (intro conjI)
  qed
  have bad: "\<forall>err. e = Some err \<longrightarrow>
       ps = [] \<and> ex # newd @ new \<noteq> [] \<and> surfaced (last (ex # newd @ new)) = Some err"
    using w4 by simp
  show ?thesis
    unfolding walkedFrom_def using rq bl ok bad by (intro conjI)
qed

lemma walkPages_trace_aux:
  assumes run: "walkPages c0 eventID0 pageSize0 maxPages0 page0 all0 h0 = Some y0"
  shows "eventID0 \<noteq> [] \<longrightarrow> BaseURL c0 \<noteq> [] \<longrightarrow>
   (\<exists>new. snd y0 = h0 @ new \<and> walkedFrom page0 all0 (fst (fst y0)) (snd (fst y0)) new)"
proof (rule walkPages.raw_induct [where P = "\<lambda>c eventID pageSize maxPages page all h y.
     eventID \<noteq> [] \<longrightarrow> BaseURL c \<noteq> [] \<longrightarrow>
     (\<exists>new. snd y = h @ new \<and> walkedFrom page all (fst (fst y)) (snd (fst y)) new)",
     OF _ run], goal_cases)
  case (1 f c eventID pageSize maxPages page all h y)
  note IH = "1"(1) and body = "1"(2)
  show ?case
  proof (intro impI)
    assume ev: "eventID \<noteq> []" and bu: "BaseURL c \<noteq> []"
    show "\<exists>new. snd y = h @ new \<and> walkedFrom page all (fst (fst y)) (snd (fst y)) new"
    proof (cases "0 < maxPages \<and> maxPages < page")
      case True
      with body have "y = ((all, None), h)" by simp
      then have "snd y = h @ [] \<and> walkedFrom page all (fst (fst y)) (snd (fst y)) []"
        using walkedFrom_Nil by simp
      then show ?thesis by (rule exI)
    next
      case beyond: False
      obtain res e1 h1 where lp: "ListProfiles c eventID page pageSize h = ((res, e1), h1)"
        by (metis prod.exhaust)
      from ListProfiles_trace [OF ev bu lp] obtain ex where ex: "h1 = h @ [ex]"
        "(e1 = None) = (surfaced ex = None)"
        "\<forall>err. e1 = Some err \<longrightarrow> surfaced ex = Some (ListingPage page err)"
        "pageOf ex = [page]" "requested ex = []" "fetched ex = []"
        "e1 = None \<longrightarrow> map ID (Profiles res) = filter (\<lambda>id. id \<noteq> []) (listed ex)"
        by (elim exE conjE) (rule that)
      show ?thesis
      proof (cases e1)
        case (Some err)
        with body beyond lp have y: "y = (([], Some (ListingPage page err)), h1)" by simp
        have "surfaced ex = Some (ListingPage page err)" using ex(3) Some by blast
        from walkedFrom_list_failed [OF this ex(5)]
        have "snd y = h @ [ex] \<and> walkedFrom page all (fst (fst y)) (snd (fst y)) [ex]"
          using y ex(1) by simp
        then show ?thesis by (rule exI)
      next
        case None
        have sx: "surfaced ex = None" using ex(2) None by simp
        have ids: "filter (\<lambda>id. id \<noteq> []) (listed ex) = map ID (Profiles res)"
          using ex(7) None by simp
        show ?thesis
        proof (cases "Profiles res = []")
          case True
          with body beyond lp None have y: "y = ((all, None), h1)" by simp
          have "filter (\<lambda>id. id \<noteq> []) (listed ex) = []" using ids True by simp
          from walkedFrom_empty_page [OF sx ex(5) ex(6) ex(4) this]
          have "snd y = h @ [ex] \<and> walkedFrom page all (fst (fst y)) (snd (fst y)) [ex]"
            using y ex(1) by simp
          then show ?thesis by (rule exI)
        next
          case nonempty: False
          obtain all' e2 h2 where
            fd: "fetchDetails c eventID (Profiles res) all h1 = ((all', e2), h2)"
            by (metis prod.exhaust)
          from fetchDetails_trace [OF ev bu fd] obtain newd where d: "h2 = h1 @ newd"
            "[] \<notin> set (concat (map requested newd))"
            "concat (map listed newd) = []" "concat (map pageOf newd) = []"
            "\<forall>x \<in> set (butlast newd). surfaced x = None"
            "e2 = None \<longrightarrow>
               (\<forall>x \<in> set newd. surfaced x = None) \<and>
               all' = all @ map snd (concat (map fetched newd)) \<and>
               concat (map requested newd) = map fst (concat (map fetched newd)) \<and>
               concat (map requested newd) = filter (\<lambda>id. id \<noteq> []) (map ID (Profiles res))"
            "\<forall>err. e2 = Some err \<longrightarrow> all' = [] \<and> newd \<noteq> [] \<and> surfaced (last newd) = Some err"
            by (elim exE conjE) (rule that)
          have page: "walkedFrom page all all' e2 (ex # newd)"
            by (rule walkedFrom_page [OF sx ex(5) ex(6) ex(4) ids d(2) d(3) d(4) d(5) d(6) d(7)])
          have hist: "h2 = h @ (ex # newd)" using ex(1) d(1) by simp
          show ?thesis
          proof (cases e2)
            case (Some err)
            with body beyond lp None nonempty fd have y: "y = (([], Some err), h2)" by simp
            have "all' = []" using d(7) Some by blast
            with page Some y hist
            have "snd y = h @ (ex # newd) \<and>
                  walkedFrom page all (fst (fst y)) (snd (fst y)) (ex # newd)"
              by simp
            then show ?thesis by (rule exI)
          next
            case ok: None
            show ?thesis
            proof (cases "HasNext res")
              case False
              with body beyond lp None nonempty fd ok have y: "y = ((all', None), h2)" by simp
              with page ok hist
              have "snd y = h @ (ex # newd) \<and>
                    walkedFrom page all (fst (fst y)) (snd (fst y)) (ex # newd)"
                by simp
              then show ?thesis by (rule exI)
            next
              case True
              with body beyond lp None nonempty fd ok
              have "f c eventID pageSize maxPages (page + 1) all' h2 = Some y" by simp
              from IH [OF this] ev bu obtain new where
                n: "snd y = h2 @ new" "walkedFrom (page + 1) all' (fst (fst y)) (snd (fst y)) new"
                by blast
              have g: "\<forall>x \<in> set newd. surfaced x = None"
                "all' = all @ map snd (concat (map fetched newd))"
                "concat (map requested newd) = map fst (concat (map fetched newd))"
                "concat (map requested newd) = filter (\<lambda>id. id \<noteq> []) (map ID (Profiles res))"
                using d(6) ok by auto
              have "walkedFrom page all (fst (fst y)) (snd (fst y)) (ex # newd @ new)"
                by (rule walkedFrom_step
                    [OF sx ex(5) ex(6) ex(4) ids d(2) d(3) d(4) g(1) g(2) g(3) g(4) n(2)])
              moreover have "snd y = h @ (ex # newd @ new)" using n(1) hist by simp
              ultimately have "snd y = h @ (ex # newd @ new) \<and>
                  walkedFrom page all (fst (fst y)) (snd (fst y)) (ex # newd @ new)"
                by simp
              then show ?thesis by (rule exI)
            qed
          qed
        qed
      qed
    qed
  qed
qed

lemma walkPages_trace:
  assumes "walkPages c eventID pageSize maxPages page all h = Some ((ps, e), h')"
    and "eventID \<noteq> []" and "BaseURL c \<noteq> []"
  shows "\<exists>new. h' = h @ new \<and> walkedFrom page all ps e new"
  using walkPages_trace_aux [OF assms(1)] assms(2,3) by simp

lemma walkPages_no_BaseURL:
  assumes "BaseURL c = []" and "eventID \<noteq> []"
  shows "walkPages c eventID pageSize maxPages 1 all h =
     Some (([], Some (ListingPage 1 (New ''client BaseURL is empty''))), h)"
  using assms by (subst walkPages.simps) (simp add: ListProfiles_def)

lemma ScrapeAllProfiles_trace:
  assumes "ScrapeAllProfiles s maxPages h = Some ((ps, e), h')"
  shows "\<exists>new. h' = h @ new \<and> (e \<noteq> None \<and> ps = [] \<and> new = [] \<or> walkedFrom 1 [] ps e new)"
proof (cases "Client s")
  case None
  with assms have "h' = h @ [] \<and> (e \<noteq> None \<and> ps = [] \<and> [] = ([] :: exchange list) \<or> walkedFrom 1 [] ps e [])"
    by (auto simp: ScrapeAllProfiles_def)
  then show ?thesis by (rule exI)
next
  case (Some c)
  show ?thesis
  proof (cases "EventID s = [] \<or> BaseURL c = []")
    case True
    have "h' = h @ [] \<and> (e \<noteq> None \<and> ps = [] \<and> [] = ([] :: exchange list) \<or> walkedFrom 1 [] ps e [])"
    proof (cases "EventID s = []")
      case True
      with assms Some show ?thesis by (auto simp: ScrapeAllProfiles_def)
    next
      case False
      with True have "BaseURL c = []" by simp
      from walkPages_no_BaseURL [OF this False] assms Some False
      show ?thesis by (auto simp: ScrapeAllProfiles_def Let_def)
    qed
    then show ?thesis by (rule exI)
  next
    case False
    then have ev: "EventID s \<noteq> []" and bu: "BaseURL c \<noteq> []" by simp_all
    from assms Some ev
    have "walkPages c (EventID s) (if PageSize s \<le> 0 then 50 else PageSize s) maxPages 1 [] h =
        Some ((ps, e), h')"
      by (simp add: ScrapeAllProfiles_def Let_def)
    from walkPages_trace [OF this ev bu] show ?thesis by blast
  qed
qed

text \<open>
  With a page ceiling the Walker returns, whatever the server answers.
\<close>

lemma walkPages_returns:
  assumes "0 < maxPages"
  shows "\<exists>y. walkPages c eventID pageSize maxPages page all h = Some y"
proof (induction "nat (maxPages + 1 - page)" arbitrary: page all h)
  case 0
  then have "maxPages < page" by simp
  with assms show ?case by (subst walkPages.simps) simp
next
  case (Suc n)
  then have next_page: "n = nat (maxPages + 1 - (page + 1))" by simp
  obtain res e1 h1 where lp: "ListProfiles c eventID page pageSize h = ((res, e1), h1)"
    by (metis prod.exhaust)
  obtain all' e2 h2 where fd: "fetchDetails c eventID (Profiles res) all h1 = ((all', e2), h2)"
    by (metis prod.exhaust)
  from Suc.hyps(1) [OF next_page]
  obtain ps e h' where "walkPages c eventID pageSize maxPages (page + 1) all' h2 = Some ((ps, e), h')"
    by (metis prod.exhaust)
  then show ?case
    using lp fd by (subst walkPages.simps) (auto split: option.splits)
qed

text \<open>
  From any state of the loop, a list fetch or a detail fetch that fails makes the Walker
  return at once, with the error and without the profiles collected so far.
\<close>

lemma walkPages_list_failure:
  assumes "\<not> (0 < maxPages \<and> maxPages < page)"
    and "ListProfiles c eventID page pageSize h = ((res, Some err), h1)"
  shows "walkPages c eventID pageSize maxPages page all h =
     Some (([], Some (ListingPage page err)), h1)"
  using assms by (subst walkPages.simps) simp

lemma walkPages_detail_failure:
  assumes "\<not> (0 < maxPages \<and> maxPages < page)"
    and "ListProfiles c eventID page pageSize h = ((res, None), h1)"
    and "fetchDetails c eventID (Profiles res) all h1 = ((all', Some err), h2)"
  shows "walkPages c eventID pageSize maxPages page all h = Some (([], Some err), h2)"
proof -
  have "Profiles res \<noteq> []"
    using assms(3) by (cases "Profiles res") auto
  with assms show ?thesis by (subst walkPages.simps) simp
qed

section \<open>The walk of the specification\<close>

lemma detailExchanges_nonempty_ids:
  "detailExchanges hc eventID (filter (\<lambda>id. id \<noteq> []) ids) h = detailExchanges hc eventID ids h"
  by (induction ids arbitrary: h) (simp_all add: Let_def)

lemma detailExchanges_requested:
  "concat (map requested (detailExchanges hc eventID ids h)) = filter (\<lambda>id. id \<noteq> []) ids"
  by (induction ids arbitrary: h) (simp_all add: Let_def requested_def)

lemma detailExchanges_listed:
  "concat (map listed (detailExchanges hc eventID ids h)) = []"
  by (induction ids arbitrary: h) (simp_all add: Let_def listed_def)

lemma detailExchanges_fetched:
  "\<forall>ex \<in> set (detailExchanges hc eventID ids h). surfaced ex = None \<Longrightarrow>
   map fst (concat (map fetched (detailExchanges hc eventID ids h))) = filter (\<lambda>id. id \<noteq> []) ids"
proof (induction ids arbitrary: h)
  case Nil
  then show ?case by simp
next
  case (Cons a ids)
  show ?case
  proof (cases "a = []")
    case True
    with Cons show ?thesis by simp
  next
    case False
    let ?ex = "DetailExchange eventID a (getAttendee hc h eventID a)"
    have d: "detailExchanges hc eventID (a # ids) h = ?ex # detailExchanges hc eventID ids (h @ [?ex])"
      using False by (simp add: Let_def)
    have s: "surfaced ?ex = None" using Cons.prems d by simp
    have r: "\<forall>ex \<in> set (detailExchanges hc eventID ids (h @ [?ex])). surfaced ex = None"
      using Cons.prems d by simp
    have f: "map fst (fetched ?ex) = [a]"
      using s by (auto simp: surfaced_def fetched_def split: reply.splits if_splits sum.splits)
    show ?thesis using Cons.IH [OF r] f False d by simp
  qed
qed

lemma ListProfiles_replay:
  assumes "eventID \<noteq> []" and "BaseURL c \<noteq> []"
    and "ListProfiles c eventID page pageSize h = ((res, e), h1)"
  shows "h1 = h @ [listExchange (HTTPClient c) eventID pageSize page h] \<and>
     (e = None) = (surfaced (listExchange (HTTPClient c) eventID pageSize page h) = None) \<and>
     (e = None \<longrightarrow>
        map ID (Profiles res) =
          filter (\<lambda>id. id \<noteq> []) (listed (listExchange (HTTPClient c) eventID pageSize page h)) \<and>
        HasNext res =
          (int (length (listed (listExchange (HTTPClient c) eventID pageSize page h))) = pageSize))"
  using assms
  by (auto simp: ListProfiles_def Let_def surfaced_def listExchange_def listed_def
      stubProfiles_IDs split: reply.splits if_splits sum.splits)

lemma fetchDetails_replay:
  assumes "eventID \<noteq> []" and "BaseURL c \<noteq> []"
  shows "fetchDetails c eventID stubs all h = ((all', e), h2) \<Longrightarrow>
    (e = None) =
      (\<forall>ex \<in> set (detailExchanges (HTTPClient c) eventID (map ID stubs) h). surfaced ex = None) \<and>
    (e = None \<longrightarrow>
       h2 = h @ detailExchanges (HTTPClient c) eventID (map ID stubs) h \<and>
       all' = all @ map snd (concat (map fetched
                (detailExchanges (HTTPClient c) eventID (map ID stubs) h))))"
proof (induction stubs arbitrary: all h)
  case Nil
  then show ?case by auto
next
  case (Cons stub stubs)
  show ?case
  proof (cases "ID stub = []")
    case True
    with Cons.prems have "fetchDetails c eventID stubs all h = ((all', e), h2)" by simp
    from Cons.IH [OF this] True show ?thesis by simp
  next
    case False
    let ?ex = "DetailExchange eventID (ID stub) (getAttendee (HTTPClient c) h eventID (ID stub))"
    have d: "detailExchanges (HTTPClient c) eventID (map ID (stub # stubs)) h =
        ?ex # detailExchanges (HTTPClient c) eventID (map ID stubs) (h @ [?ex])"
      using False by (simp add: Let_def)
    obtain profile e1 h1 where g: "GetAttendeeProfile c eventID (ID stub) h = ((profile, e1), h1)"
      by (metis prod.exhaust)
    have g1: "h1 = h @ [?ex]" and g2: "(e1 = None) = (surfaced ?ex = None)"
      and g3: "e1 = None \<longrightarrow> fetched ?ex = [(ID stub, profile)]"
      using g assms False
      by (auto simp: GetAttendeeProfile_def Let_def surfaced_def fetched_def
          split: reply.splits if_splits sum.splits)
    show ?thesis
    proof (cases e1)
      case (Some err)
      with Cons.prems False g have "e = Some (GettingAttendee (ID stub) err)" by auto
      moreover have "surfaced ?ex \<noteq> None" using g2 Some by simp
      ultimately show ?thesis unfolding d by simp
    next
      case None
      with Cons.prems False g g1
      have "fetchDetails c eventID stubs (all @ [profile]) (h @ [?ex]) = ((all', e), h2)" by simp
      from Cons.IH [OF this]
      have ih: "(e = None) =
          (\<forall>ex \<in> set (detailExchanges (HTTPClient c) eventID (map ID stubs) (h @ [?ex])).
             surfaced ex = None)"
        "e = None \<longrightarrow>
           h2 = (h @ [?ex]) @ detailExchanges (HTTPClient c) eventID (map ID stubs) (h @ [?ex]) \<and>
           all' = (all @ [profile]) @ map snd (concat (map fetched
                (detailExchanges (HTTPClient c) eventID (map ID stubs) (h @ [?ex]))))"
        by simp_all
      have s: "surfaced ?ex = None" using g2 None by simp
      have f: "fetched ?ex = [(ID stub, profile)]" using g3 None by simp
      show ?thesis unfolding d using ih s f by auto
    qed
  qed
qed

text \<open>
  When a walk of \<open>n\<close> pages ends, the loop returns, with the results of its detail
  requests appended to what was collected.
\<close>

lemma walkPages_replay:
  assumes ev: "eventID \<noteq> []" and bu: "BaseURL c \<noteq> []"
  shows "walkEnds (HTTPClient c) eventID pageSize maxPages n page h \<Longrightarrow>
    walkPages c eventID pageSize maxPages page all h =
      Some ((all @ map snd (concat (map fetched
               (walkExchanges (HTTPClient c) eventID pageSize n page h))), None),
            h @ walkExchanges (HTTPClient c) eventID pageSize n page h)"
proof (induction n arbitrary: page all h)
  case 0
  then show ?case by (subst walkPages.simps) simp
next
  case (Suc n)
  let ?l = "listExchange (HTTPClient c) eventID pageSize page h"
  let ?D = "detailExchanges (HTTPClient c) eventID (listed ?l) (h @ [?l])"
  have pe: "pageExchanges (HTTPClient c) eventID pageSize page h = ?l # ?D"
    by (simp add: pageExchanges_def Let_def)
  from Suc.prems have below: "\<not> (0 < maxPages \<and> maxPages < page)"
    and sl: "surfaced ?l = None" and sD: "\<forall>ex \<in> set ?D. surfaced ex = None"
    and rest: "if continues pageSize ?l
       then walkEnds (HTTPClient c) eventID pageSize maxPages n (page + 1) (h @ ?l # ?D)
       else n = 0"
    by (auto simp: pe split: if_splits)
  have fl: "fetched ?l = []" by (simp add: fetched_def listExchange_def)
  obtain res e1 h1 where lp: "ListProfiles c eventID page pageSize h = ((res, e1), h1)"
    by (metis prod.exhaust)
  from ListProfiles_replay [OF ev bu lp] sl
  have h1: "h1 = h @ [?l]" and e1: "e1 = None"
    and ids: "map ID (Profiles res) = filter (\<lambda>id. id \<noteq> []) (listed ?l)"
    and hn: "HasNext res = (int (length (listed ?l)) = pageSize)"
    by simp_all
  have D: "detailExchanges (HTTPClient c) eventID (map ID (Profiles res)) (h @ [?l]) = ?D"
    unfolding ids by (rule detailExchanges_nonempty_ids)
  show ?case
  proof (cases "Profiles res = []")
    case True
    then have "filter (\<lambda>id. id \<noteq> []) (listed ?l) = []" using ids by simp
    then have nc: "\<not> continues pageSize ?l" by (simp add: continues_def)
    have "?D = []" using D True by simp
    moreover have "n = 0" using rest nc by simp
    ultimately have w: "walkExchanges (HTTPClient c) eventID pageSize (Suc n) page h = [?l]"
      by (simp add: pe)
    show ?thesis
      unfolding w using below lp h1 e1 True fl by (subst walkPages.simps) simp
  next
    case nonempty: False
    obtain all' e2 h2 where
      fd: "fetchDetails c eventID (Profiles res) all h1 = ((all', e2), h2)"
      by (metis prod.exhaust)
    from fetchDetails_replay [OF ev bu fd [unfolded h1]] sD
    have e2: "e2 = None" and h2: "h2 = h @ ?l # ?D"
      and all': "all' = all @ map snd (concat (map fetched ?D))"
      unfolding D by simp_all
    have ne: "filter (\<lambda>id. id \<noteq> []) (listed ?l) \<noteq> []" using ids nonempty by auto
    show ?thesis
    proof (cases "HasNext res")
      case False
      then have nc: "\<not> continues pageSize ?l" using hn by (simp add: continues_def)
      then have "n = 0" using rest by simp
      then have w: "walkExchanges (HTTPClient c) eventID pageSize (Suc n) page h = ?l # ?D"
        by (simp add: pe)
      show ?thesis
        unfolding w using below lp h1 e1 nonempty fd e2 h2 all' False fl
        by (subst walkPages.simps) simp
    next
      case True
      then have "continues pageSize ?l" using hn ne by (simp add: continues_def)
      with rest have "walkEnds (HTTPClient c) eventID pageSize maxPages n (page + 1) (h @ ?l # ?D)"
        by simp
      from Suc.IH [OF this, of all']
      have ih: "walkPages c eventID pageSize maxPages (page + 1) all' (h @ ?l # ?D) =
        Some ((all' @ map snd (concat (map fetched
                 (walkExchanges (HTTPClient c) eventID pageSize n (page + 1) (h @ ?l # ?D)))), None),
              (h @ ?l # ?D) @ walkExchanges (HTTPClient c) eventID pageSize n (page + 1) (h @ ?l # ?D))" .
      have w: "walkExchanges (HTTPClient c) eventID pageSize (Suc n) page h =
          (?l # ?D) @ walkExchanges (HTTPClient c) eventID pageSize n (page + 1) (h @ ?l # ?D)"
        by (simp add: pe)
      show ?thesis
        unfolding w using below lp h1 e1 nonempty fd e2 h2 all' True fl ih
        by (subst walkPages.simps) simp
    qed
  qed
qed

text \<open>
  When the loop returns without error, a walk of some number of pages ends.
\<close>

lemma walkPages_ends_aux:
  assumes run: "walkPages c0 eventID0 pageSize0 maxPages0 page0 all0 h0 = Some y0"
  shows "eventID0 \<noteq> [] \<longrightarrow> BaseURL c0 \<noteq> [] \<longrightarrow> snd (fst y0) = None \<longrightarrow>
   (\<exists>n. walkEnds (HTTPClient c0) eventID0 pageSize0 maxPages0 n page0 h0)"
proof (rule walkPages.raw_induct [where P = "\<lambda>c eventID pageSize maxPages page all h y.
     eventID \<noteq> [] \<longrightarrow> BaseURL c \<noteq> [] \<longrightarrow> snd (fst y) = None \<longrightarrow>
     (\<exists>n. walkEnds (HTTPClient c) eventID pageSize maxPages n page h)",
     OF _ run], goal_cases)
  case (1 f c eventID pageSize maxPages page all h y)
  note IH = "1"(1) and body = "1"(2)
  show ?case
  proof (intro impI)
    assume ev: "eventID \<noteq> []" and bu: "BaseURL c \<noteq> []" and ok: "snd (fst y) = None"
    let ?l = "listExchange (HTTPClient c) eventID pageSize page h"
    let ?D = "detailExchanges (HTTPClient c) eventID (listed ?l) (h @ [?l])"
    have pe: "pageExchanges (HTTPClient c) eventID pageSize page h = ?l # ?D"
      by (simp add: pageExchanges_def Let_def)
    show "\<exists>n. walkEnds (HTTPClient c) eventID pageSize maxPages n page h"
    proof (cases "0 < maxPages \<and> maxPages < page")
      case True
      then have "walkEnds (HTTPClient c) eventID pageSize maxPages 0 page h" by simp
      then show ?thesis by (rule exI)
    next
      case below: False
      obtain res e1 h1 where lp: "ListProfiles c eventID page pageSize h = ((res, e1), h1)"
        by (metis prod.exhaust)
      have e1: "e1 = None"
      proof (cases e1)
        case (Some err)
        with body below lp have "y = (([], Some (ListingPage page err)), h1)" by simp
        with ok show ?thesis by simp
      qed
      from ListProfiles_replay [OF ev bu lp] e1
      have h1: "h1 = h @ [?l]" and sl: "surfaced ?l = None"
        and ids: "map ID (Profiles res) = filter (\<lambda>id. id \<noteq> []) (listed ?l)"
        and hn: "HasNext res = (int (length (listed ?l)) = pageSize)"
        by simp_all
      have D: "detailExchanges (HTTPClient c) eventID (map ID (Profiles res)) (h @ [?l]) = ?D"
        unfolding ids by (rule detailExchanges_nonempty_ids)
      show ?thesis
      proof (cases "Profiles res = []")
        case True
        then have "filter (\<lambda>id. id \<noteq> []) (listed ?l) = []" using ids by simp
        then have nc: "\<not> continues pageSize ?l" by (simp add: continues_def)
        have "?D = []" using D True by simp
        then have "walkEnds (HTTPClient c) eventID pageSize maxPages (Suc 0) page h"
          using below sl nc by (simp add: pe)
        then show ?thesis by (rule exI)
      next
        case nonempty: False
        obtain all' e2 h2 where
          fd: "fetchDetails c eventID (Profiles res) all h1 = ((all', e2), h2)"
          by (metis prod.exhaust)
        have e2: "e2 = None"
        proof (cases e2)
          case (Some err)
          with body below lp e1 nonempty fd have "y = (([], Some err), h2)" by simp
          with ok show ?thesis by simp
        qed
        from fetchDetails_replay [OF ev bu fd [unfolded h1]] e2
        have sD: "\<forall>ex \<in> set ?D. surfaced ex = None" and h2: "h2 = h @ ?l # ?D"
          unfolding D by simp_all
        have ne: "filter (\<lambda>id. id \<noteq> []) (listed ?l) \<noteq> []" using ids nonempty by auto
        show ?thesis
        proof (cases "HasNext res")
          case False
          then have nc: "\<not> continues pageSize ?l" using hn by (simp add: continues_def)
          have "walkEnds (HTTPClient c) eventID pageSize maxPages (Suc 0) page h"
            using below sl sD nc by (simp add: pe)
          then show ?thesis by (rule exI)
        next
          case True
          then have co: "continues pageSize ?l" using hn ne by (simp add: continues_def)
          from body below lp e1 nonempty fd e2 True
          have "f c eventID pageSize maxPages (page + 1) all' h2 = Some y" by simp
          from IH [OF this] ev bu ok obtain n where
            "walkEnds (HTTPClient c) eventID pageSize maxPages n (page + 1) h2" by blast
          then have "walkEnds (HTTPClient c) eventID pageSize maxPages (Suc n) page h"
            using below sl sD co h2 by (simp add: pe)
          then show ?thesis by (rule exI)
        qed
      qed
    qed
  qed
qed

lemma walkExchanges_listed:
  "walkEnds hc eventID pageSize maxPages n page h \<Longrightarrow>
   map fst (concat (map fetched (walkExchanges hc eventID pageSize n page h))) =
     filter (\<lambda>id. id \<noteq> []) (concat (map listed (walkExchanges hc eventID pageSize n page h)))"
proof (induction n arbitrary: page h)
  case 0
  then show ?case by simp
next
  case (Suc n)
  let ?l = "listExchange hc eventID pageSize page h"
  let ?D = "detailExchanges hc eventID (listed ?l) (h @ [?l])"
  let ?W = "walkExchanges hc eventID pageSize n (page + 1) (h @ ?l # ?D)"
  have pe: "pageExchanges hc eventID pageSize page h = ?l # ?D"
    by (simp add: pageExchanges_def Let_def)
  have w: "walkExchanges hc eventID pageSize (Suc n) page h = ?l # ?D @ ?W"
    by (simp add: pe)
  from Suc.prems have sD: "\<forall>ex \<in> set ?D. surfaced ex = None"
    by (simp add: pe)
  have fl: "fetched ?l = []" by (simp add: fetched_def listExchange_def)
  have tail: "map fst (concat (map fetched ?W)) = filter (\<lambda>id. id \<noteq> []) (concat (map listed ?W))"
  proof (cases "continues pageSize ?l")
    case True
    with Suc.prems have "walkEnds hc eventID pageSize maxPages n (page + 1) (h @ ?l # ?D)"
      by (simp add: pe)
    then show ?thesis by (rule Suc.IH)
  next
    case False
    with Suc.prems have "n = 0" by simp
    then show ?thesis by simp
  qed
  show ?case
    unfolding w using tail fl detailExchanges_fetched [OF sD] detailExchanges_listed
    by simp
qed

lemma detailExchanges_pages:
  "concat (map pageOf (detailExchanges hc eventID ids h)) = []"
  by (induction ids arbitrary: h) (simp_all add: Let_def pageOf_def)

lemma walkExchanges_pages:
  "concat (map pageOf (walkExchanges hc eventID pageSize n page h)) = [page..page + int n - 1]"
proof (induction n arbitrary: page h)
  case 0
  then show ?case by simp
next
  case (Suc n)
  let ?l = "listExchange hc eventID pageSize page h"
  let ?D = "detailExchanges hc eventID (listed ?l) (h @ [?l])"
  let ?W = "walkExchanges hc eventID pageSize n (page + 1) (h @ ?l # ?D)"
  have w: "walkExchanges hc eventID pageSize (Suc n) page h = ?l # ?D @ ?W"
    by (simp add: pageExchanges_def Let_def)
  have pl: "pageOf ?l = [page]" by (simp add: pageOf_def listExchange_def)
  have "concat (map pageOf (walkExchanges hc eventID pageSize (Suc n) page h)) =
      page # [page + 1..page + 1 + int n - 1]"
    unfolding w using Suc.IH [of "page + 1" "h @ ?l # ?D"] pl detailExchanges_pages by simp
  also have "\<dots> = [page..page + int (Suc n) - 1]"
    using upto_rec1 [of page "page + int (Suc n) - 1"] by simp
  finally show ?case .
qed

section \<open>The example runs of the Walker\<close>




section \<open>The output of the Walker\<close>

text \<open>
  C2: with a client, an event and a base URL, the Walker returns the profiles \<open>all\<close>
  without error exactly when a walk of some number \<open>n\<close> of pages from page 1 ends: it has
  then made the requests of that walk and no other, page after page from page 1 and, on
  each page, one detail request for every listed identifier that is not empty, in listing
  order; and \<open>all\<close> is the sequence of the results of these detail requests. Whenever the
  Walker returns, with an error or without, none of its detail requests was for an empty
  identifier.
\<close>

theorem ScrapeAllProfiles_output:
  "(Client s = Some c \<and> EventID s \<noteq> [] \<and> BaseURL c \<noteq> [] \<longrightarrow>
      (ScrapeAllProfiles s maxPages h = Some ((all, None), h')) =
      (\<exists>n. walkEnds (HTTPClient c) (EventID s) (if PageSize s \<le> 0 then 50 else PageSize s)
             maxPages n 1 h \<and>
           h' = h @ walkExchanges (HTTPClient c) (EventID s)
                      (if PageSize s \<le> 0 then 50 else PageSize s) n 1 h \<and>
           all = map snd (concat (map fetched (walkExchanges (HTTPClient c) (EventID s)
                      (if PageSize s \<le> 0 then 50 else PageSize s) n 1 h))) \<and>
           map fst (concat (map fetched (walkExchanges (HTTPClient c) (EventID s)
                      (if PageSize s \<le> 0 then 50 else PageSize s) n 1 h))) =
             filter (\<lambda>id. id \<noteq> []) (concat (map listed (walkExchanges (HTTPClient c) (EventID s)
                      (if PageSize s \<le> 0 then 50 else PageSize s) n 1 h))) \<and>
           concat (map pageOf (walkExchanges (HTTPClient c) (EventID s)
                      (if PageSize s \<le> 0 then 50 else PageSize s) n 1 h)) = [1..int n])) \<and>
   (ScrapeAllProfiles s maxPages h = Some ((ps, e), hh) \<longrightarrow>
      [] \<notin> set (concat (map requested (drop (length h) hh))))"
proof (intro conjI impI)
  assume cfg: "Client s = Some c \<and> EventID s \<noteq> [] \<and> BaseURL c \<noteq> []"
  let ?size = "if PageSize s \<le> 0 then 50 else PageSize s"
  let ?W = "\<lambda>n. walkExchanges (HTTPClient c) (EventID s) ?size n 1 h"
  let ?E = "\<lambda>n. walkEnds (HTTPClient c) (EventID s) ?size maxPages n 1 h"
  from cfg have ev: "EventID s \<noteq> []" and bu: "BaseURL c \<noteq> []" by simp_all
  have unfold: "ScrapeAllProfiles s maxPages h = walkPages c (EventID s) ?size maxPages 1 [] h"
    using cfg by (simp add: ScrapeAllProfiles_def Let_def)
  have returns: "ScrapeAllProfiles s maxPages h =
      Some ((map snd (concat (map fetched (?W n))), None), h @ ?W n)" if "?E n" for n
    unfolding unfold using walkPages_replay [OF ev bu that, of "[]"] by simp
  show "(ScrapeAllProfiles s maxPages h = Some ((all, None), h')) =
      (\<exists>n. ?E n \<and> h' = h @ ?W n \<and> all = map snd (concat (map fetched (?W n))) \<and>
           map fst (concat (map fetched (?W n))) =
             filter (\<lambda>id. id \<noteq> []) (concat (map listed (?W n))) \<and>
           concat (map pageOf (?W n)) = [1..int n])"
  proof
    assume run: "ScrapeAllProfiles s maxPages h = Some ((all, None), h')"
    then have "walkPages c (EventID s) ?size maxPages 1 [] h = Some ((all, None), h')"
      unfolding unfold .
    from walkPages_ends_aux [OF this] ev bu obtain n where n: "?E n" by auto
    from returns [OF n] run
    have "h' = h @ ?W n" and "all = map snd (concat (map fetched (?W n)))" by simp_all
    moreover have "map fst (concat (map fetched (?W n))) =
        filter (\<lambda>id. id \<noteq> []) (concat (map listed (?W n)))"
      using n by (rule walkExchanges_listed)
    moreover have "concat (map pageOf (?W n)) = [1..int n]"
      using walkExchanges_pages [of "HTTPClient c" "EventID s" ?size n 1 h] by simp
    ultimately show "\<exists>n. ?E n \<and> h' = h @ ?W n \<and> all = map snd (concat (map fetched (?W n))) \<and>
           map fst (concat (map fetched (?W n))) =
             filter (\<lambda>id. id \<noteq> []) (concat (map listed (?W n))) \<and>
           concat (map pageOf (?W n)) = [1..int n]"
      using n by blast
  next
    assume "\<exists>n. ?E n \<and> h' = h @ ?W n \<and> all = map snd (concat (map fetched (?W n))) \<and>
           map fst (concat (map fetched (?W n))) =
             filter (\<lambda>id. id \<noteq> []) (concat (map listed (?W n))) \<and>
           concat (map pageOf (?W n)) = [1..int n]"
    then obtain n where "?E n" "h' = h @ ?W n" "all = map snd (concat (map fetched (?W n)))"
      by blast
    with returns [of n] show "ScrapeAllProfiles s maxPages h = Some ((all, None), h')" by simp
  qed
next
  assume "ScrapeAllProfiles s maxPages h = Some ((ps, e), hh)"
  from ScrapeAllProfiles_trace [OF this] obtain new where
    n: "hh = h @ new" "e \<noteq> None \<and> ps = [] \<and> new = [] \<or> walkedFrom 1 [] ps e new"
    by (elim exE conjE) (rule that)
  have d: "drop (length h) hh = new" using n(1) by simp
  from n(2) show "[] \<notin> set (concat (map requested (drop (length h) hh)))"
    unfolding d walkedFrom_def by auto
qed

lemma conference_ends:
  "walkEnds (HTTPClient (clientOf conference)) (EventID (scraperOf conference))
     (if PageSize (scraperOf conference) \<le> 0 then 50 else PageSize (scraperOf conference))
     0 (Suc (Suc 0)) 1 []"
  by (simp add: scraperOf_def clientOf_def conference_def pageExchanges_def listExchange_def
      continues_def listed_def surfaced_def pageReply_def Let_def)

lemma conference_exchanges:
  "walkExchanges (HTTPClient (clientOf conference)) (EventID (scraperOf conference))
     (if PageSize (scraperOf conference) \<le> 0 then 50 else PageSize (scraperOf conference))
     (Suc (Suc 0)) 1 [] = fullWalk"
  by (simp add: scraperOf_def clientOf_def conference_def pageExchanges_def listExchange_def
      listed_def pageReply_def fullWalk_def Let_def)

lemma fullWalk_fetched:
  "map snd (concat (map fetched fullWalk)) = [bare ''a'', bare ''b'', bare ''c'']"
  by (simp add: fullWalk_def fetched_def pageReply_def attendee_def bare_def
      mapBrellaDetailToProfile_def)

text \<open>
  The scenario of the specification: two pages of size 2, the first with \<open>a\<close> and \<open>b\<close>, the
  second with \<open>c\<close>; the output is the three profiles in that order, after two listing
  requests.
\<close>

theorem ScrapeAllProfiles_output_witness:
  "ScrapeAllProfiles (scraperOf conference) 0 [] =
     Some (([bare ''a'', bare ''b'', bare ''c''], None), fullWalk)"
proof -
  have cfg: "Client (scraperOf conference) = Some (clientOf conference) \<and>
      EventID (scraperOf conference) \<noteq> [] \<and> BaseURL (clientOf conference) \<noteq> []"
    by (simp add: scraperOf_def clientOf_def)
  have listed: "map fst (concat (map fetched fullWalk)) =
      filter (\<lambda>id. id \<noteq> []) (concat (map listed fullWalk))"
    by (simp add: fullWalk_def fetched_def listed_def pageReply_def)
  have pages: "concat (map pageOf fullWalk) = [1..int (Suc (Suc 0))]"
    by (simp add: fullWalk_def pageOf_def upto_rec1)
  show ?thesis
    by (rule ScrapeAllProfiles_output [of "scraperOf conference" "clientOf conference" 0 "[]"
          "[bare ''a'', bare ''b'', bare ''c'']" fullWalk,
          THEN conjunct1, THEN mp, OF cfg, THEN iffD2],
        rule exI [of _ "Suc (Suc 0)"])
       (simp only: conference_ends conference_exchanges fullWalk_fetched listed pages
          append_Nil simp_thms)
qed

section \<open>A failed fetch\<close>



end
